theory Spec2Isabelle
  imports Complex_Main "HOL-Library.AList" "HOL-Library.Sublist" "HOL-Library.Monad_Syntax"
begin

section \<open>JavaScript numbers\<close>

text \<open>
  A JavaScript \<^verbatim>\<open>number\<close> is an IEEE-754 binary64 value. The finite ones are rationals
  \<open>m * 2 ^ e\<close> with \<open>\<bar>m\<bar> < 2 ^ 53\<close>; beside them stand \<open>NaN\<close> and the two infinities.
  The two zeros are identified: no operation of the data processor divides by a value
  that could be \<open>-0\<close>, and \<^verbatim>\<open>parseInt(s) || 0\<close> stores \<open>0\<close> for \<open>-0\<close>.
  Every arithmetic operation rounds its exact result to the nearest binary64 number,
  ties to even (\<open>fl\<close> below). Limits of a JavaScript engine's memory and call stack
  are not part of the model.
\<close>

datatype jsnum = Fin rat | NaN | PInf | NInf

function bitlen :: "int \<Rightarrow> nat" where
  "bitlen n = (if n \<le> 0 then 0 else Suc (bitlen (n div 2)))"
  by pat_completeness auto
termination
  by (relation "measure nat") auto

declare bitlen.simps [simp del]

definition pow2 :: "int \<Rightarrow> rat" where
  "pow2 k = (if 0 \<le> k then 2 ^ nat k else 1 / 2 ^ nat (- k))"

definition binade :: "rat \<Rightarrow> int" where
  \<comment> \<open>for \<open>0 < x\<close>, the exponent \<open>e\<close> with \<open>2 ^ e \<le> x < 2 ^ (e + 1)\<close>\<close>
  "binade x = (if 1 \<le> x then int (bitlen \<lfloor>x\<rfloor>) - 1
               else - int (bitlen (\<lceil>1 / x\<rceil> - 1)))"

definition round_half_even :: "rat \<Rightarrow> int" where
  "round_half_even x =
     (let f = \<lfloor>x\<rfloor>; r = x - of_int f
      in if r < 1 / 2 then f else if 1 / 2 < r then f + 1 else if even f then f else f + 1)"

definition quantum :: "rat \<Rightarrow> rat" where
  \<comment> \<open>the spacing of the binary64 numbers at \<open>a > 0\<close>: 53 significant bits, and
     the fixed spacing \<open>2 ^ - 1074\<close> below \<open>2 ^ - 1022\<close>\<close>
  "quantum a = pow2 (max (binade a) (- 1022) - 52)"

definition nearest :: "rat \<Rightarrow> rat" where
  \<comment> \<open>the multiple of the spacing nearest to \<open>a > 0\<close>, ties to even\<close>
  "nearest a = of_int (round_half_even (a / quantum a)) * quantum a"

definition fl :: "rat \<Rightarrow> jsnum" where
  \<comment> \<open>the \<^verbatim>\<open>number\<close> for an exact result: round to nearest, overflow to infinity\<close>
  "fl x =
     (if x = 0 then Fin 0
      else if 0 < x then (if pow2 1024 \<le> nearest x then PInf else Fin (nearest x))
      else (if pow2 1024 \<le> nearest (- x) then NInf else Fin (- nearest (- x))))"

fun fadd :: "jsnum \<Rightarrow> jsnum \<Rightarrow> jsnum" where
  "fadd NaN _ = NaN"
| "fadd _ NaN = NaN"
| "fadd PInf NInf = NaN"
| "fadd NInf PInf = NaN"
| "fadd PInf _ = PInf"
| "fadd _ PInf = PInf"
| "fadd NInf _ = NInf"
| "fadd _ NInf = NInf"
| "fadd (Fin a) (Fin b) = fl (a + b)"

fun fneg :: "jsnum \<Rightarrow> jsnum" where
  "fneg (Fin a) = Fin (- a)"
| "fneg NaN = NaN"
| "fneg PInf = NInf"
| "fneg NInf = PInf"

definition fsub :: "jsnum \<Rightarrow> jsnum \<Rightarrow> jsnum" where
  "fsub a b = fadd a (fneg b)"

fun fmul :: "jsnum \<Rightarrow> jsnum \<Rightarrow> jsnum" where
  "fmul NaN _ = NaN"
| "fmul _ NaN = NaN"
| "fmul (Fin a) (Fin b) = fl (a * b)"
| "fmul (Fin a) PInf = (if a = 0 then NaN else if 0 < a then PInf else NInf)"
| "fmul (Fin a) NInf = (if a = 0 then NaN else if 0 < a then NInf else PInf)"
| "fmul PInf (Fin b) = (if b = 0 then NaN else if 0 < b then PInf else NInf)"
| "fmul NInf (Fin b) = (if b = 0 then NaN else if 0 < b then NInf else PInf)"
| "fmul PInf PInf = PInf"
| "fmul PInf NInf = NInf"
| "fmul NInf PInf = NInf"
| "fmul NInf NInf = PInf"

fun fdiv :: "jsnum \<Rightarrow> jsnum \<Rightarrow> jsnum" where
  "fdiv NaN _ = NaN"
| "fdiv _ NaN = NaN"
| "fdiv (Fin a) (Fin b) =
     (if b = 0 then (if a = 0 then NaN else if 0 < a then PInf else NInf) else fl (a / b))"
| "fdiv (Fin a) PInf = Fin 0"
| "fdiv (Fin a) NInf = Fin 0"
| "fdiv PInf (Fin b) = (if 0 \<le> b then PInf else NInf)"
| "fdiv NInf (Fin b) = (if 0 \<le> b then NInf else PInf)"
| "fdiv PInf _ = NaN"
| "fdiv NInf _ = NaN"

fun js_gt :: "jsnum \<Rightarrow> jsnum \<Rightarrow> bool" where
  "js_gt NaN _ = False"
| "js_gt _ NaN = False"
| "js_gt (Fin a) (Fin b) = (b < a)"
| "js_gt PInf PInf = False"
| "js_gt PInf _ = True"
| "js_gt NInf _ = False"
| "js_gt (Fin a) NInf = True"
| "js_gt (Fin a) PInf = False"

fun js_ge :: "jsnum \<Rightarrow> jsnum \<Rightarrow> bool" where
  "js_ge NaN _ = False"
| "js_ge _ NaN = False"
| "js_ge (Fin a) (Fin b) = (b \<le> a)"
| "js_ge PInf _ = True"
| "js_ge NInf NInf = True"
| "js_ge NInf _ = False"
| "js_ge (Fin a) NInf = True"
| "js_ge (Fin a) PInf = False"

definition js_le :: "jsnum \<Rightarrow> jsnum \<Rightarrow> bool" where
  "js_le a b = js_ge b a"

fun Math_round :: "jsnum \<Rightarrow> jsnum" where
  \<comment> \<open>the nearest integer, ties towards \<open>+\<infinity>\<close>\<close>
  "Math_round (Fin a) = Fin (of_int \<lfloor>a + 1 / 2\<rfloor>)"
| "Math_round x = x"

fun js_max :: "jsnum \<Rightarrow> jsnum \<Rightarrow> jsnum" where
  "js_max NaN _ = NaN"
| "js_max _ NaN = NaN"
| "js_max a b = (if js_gt b a then b else a)"

fun js_min :: "jsnum \<Rightarrow> jsnum \<Rightarrow> jsnum" where
  "js_min NaN _ = NaN"
| "js_min _ NaN = NaN"
| "js_min a b = (if js_gt a b then b else a)"

definition Math_max :: "jsnum list \<Rightarrow> jsnum" where
  \<comment> \<open>\<^verbatim>\<open>Math.max(...xs)\<close>: \<open>-Infinity\<close> for no argument\<close>
  "Math_max xs = foldl js_max NInf xs"

definition Math_min :: "jsnum list \<Rightarrow> jsnum" where
  "Math_min xs = foldl js_min PInf xs"

definition truthy_num :: "jsnum \<Rightarrow> bool" where
  \<comment> \<open>\<^verbatim>\<open>ToBoolean\<close> on a number: \<open>0\<close> and \<open>NaN\<close> are falsy\<close>
  "truthy_num x = (x \<noteq> Fin 0 \<and> x \<noteq> NaN)"

definition or_zero :: "jsnum \<Rightarrow> jsnum" where
  \<comment> \<open>\<^verbatim>\<open>x || 0\<close>\<close>
  "or_zero x = (if truthy_num x then x else Fin 0)"

definition num :: "nat \<Rightarrow> jsnum" where
  "num n = Fin (of_nat n)"


section \<open>Strings, arrays and maps\<close>

text \<open>
  A JavaScript string is modelled as a \<^typ>\<open>string\<close> of 8-bit characters, \<^verbatim>\<open>undefined\<close>
  as \<^term>\<open>None\<close>. A \<^verbatim>\<open>Map\<close> iterates in insertion order and \<^verbatim>\<open>set\<close> on a present key
  keeps the key's place: an association list under \<^const>\<open>AList.update\<close>.
\<close>

definition js_index :: "'a list \<Rightarrow> nat \<Rightarrow> 'a option" where
  \<comment> \<open>\<^verbatim>\<open>xs[i]\<close>: \<^verbatim>\<open>undefined\<close> out of range\<close>
  "js_index xs i = (if i < length xs then Some (xs ! i) else None)"

definition or_empty :: "string option \<Rightarrow> string" where
  \<comment> \<open>\<^verbatim>\<open>s || ''\<close>\<close>
  "or_empty s = (case s of None \<Rightarrow> [] | Some t \<Rightarrow> t)"

definition ToString :: "string option \<Rightarrow> string" where
  "ToString s = (case s of None \<Rightarrow> ''undefined'' | Some t \<Rightarrow> t)"

definition is_white :: "char \<Rightarrow> bool" where
  \<comment> \<open>white space and line terminators among the 8-bit characters\<close>
  "is_white c = (of_char c \<in> {9, 10, 11, 12, 13, 32, 160 :: nat})"

definition trim :: "string \<Rightarrow> string" where
  "trim s = rev (dropWhile is_white (rev (dropWhile is_white s)))"

fun split_on :: "char \<Rightarrow> string \<Rightarrow> string list" where
  \<comment> \<open>\<^verbatim>\<open>s.split(c)\<close> for a one-character separator\<close>
  "split_on c [] = [[]]"
| "split_on c (x # xs) =
     (if x = c then [] # split_on c xs
      else (case split_on c xs of [] \<Rightarrow> [[x]] | p # ps \<Rightarrow> (x # p) # ps))"

definition digit_val :: "nat \<Rightarrow> char \<Rightarrow> int option" where
  "digit_val R c =
     (let n = (of_char c :: nat)
      in if 48 \<le> n \<and> n \<le> 57 then Some (int n - 48)
         else if R = 16 \<and> 97 \<le> n \<and> n \<le> 102 then Some (int n - 87)
         else if R = 16 \<and> 65 \<le> n \<and> n \<le> 70 then Some (int n - 55)
         else None)"

definition digits_val :: "nat \<Rightarrow> string \<Rightarrow> int" where
  "digits_val R Z =
     foldl (\<lambda>acc c. acc * int R + (case digit_val R c of None \<Rightarrow> 0 | Some d \<Rightarrow> d)) 0 Z"

definition parseInt :: "string option \<Rightarrow> jsnum" where
  \<comment> \<open>\<^verbatim>\<open>parseInt(s)\<close> with no radix argument: the digits' exact value, rounded to a
     \<^verbatim>\<open>number\<close>; \<^verbatim>\<open>undefined\<close> is read as the string \<^verbatim>\<open>undefined\<close>\<close>
  "parseInt arg =
     (let S = dropWhile is_white (ToString arg);
          neg = (S \<noteq> [] \<and> hd S = CHR ''-'');
          S1 = (if S \<noteq> [] \<and> (hd S = CHR ''+'' \<or> hd S = CHR ''-'') then tl S else S);
          hex = (take 2 S1 = ''0x'' \<or> take 2 S1 = ''0X'');
          R = (if hex then 16 else 10);
          S2 = (if hex then drop 2 S1 else S1);
          Z = takeWhile (\<lambda>c. digit_val R c \<noteq> None) S2
      in if Z = [] then NaN
         else fl (of_int (if neg then - digits_val R Z else digits_val R Z)))"

fun insort_cmp :: "('a \<Rightarrow> 'a \<Rightarrow> jsnum) \<Rightarrow> 'a \<Rightarrow> 'a list \<Rightarrow> 'a list" where
  "insort_cmp cmp x [] = [x]"
| "insort_cmp cmp x (y # ys) =
     (if js_gt (cmp x y) (Fin 0) then y # insort_cmp cmp x ys else x # y # ys)"

definition js_sort :: "('a \<Rightarrow> 'a \<Rightarrow> jsnum) \<Rightarrow> 'a list \<Rightarrow> 'a list" where
  \<comment> \<open>\<^verbatim>\<open>xs.sort(cmp)\<close>: the stable order in which \<open>a\<close> follows \<open>b\<close> when \<open>cmp a b > 0\<close>\<close>
  "js_sort cmp xs = foldr (insort_cmp cmp) xs []"

definition ToIntegerOrInfinity :: "jsnum \<Rightarrow> jsnum" where
  "ToIntegerOrInfinity x =
     (case x of NaN \<Rightarrow> Fin 0 | PInf \<Rightarrow> PInf | NInf \<Rightarrow> NInf
      | Fin a \<Rightarrow> Fin (of_int (if 0 \<le> a then \<lfloor>a\<rfloor> else \<lceil>a\<rceil>)))"

definition slice0 :: "'a list \<Rightarrow> jsnum \<Rightarrow> 'a list" where
  \<comment> \<open>\<^verbatim>\<open>xs.slice(0, end)\<close>\<close>
  "slice0 xs end =
     (case ToIntegerOrInfinity end of
        NaN \<Rightarrow> []
      | NInf \<Rightarrow> []
      | PInf \<Rightarrow> xs
      | Fin a \<Rightarrow> (if a < 0 then take (nat (max (int (length xs) + \<lfloor>a\<rfloor>) 0)) xs
                  else take (min (nat \<lfloor>a\<rfloor>) (length xs)) xs))"

section \<open>The data model\<close>

text \<open>
  The field \<^verbatim>\<open>make\<close> is written \<open>make'\<close>: the record package owns the name \<open>make\<close>.
\<close>

record EVRecord =
  vin :: string
  county :: string
  city :: string
  state :: string
  postalCode :: string
  modelYear :: jsnum
  make' :: string
  model :: string
  electricVehicleType :: "string option"
  cafvEligibility :: string
  electricRange :: jsnum
  baseMsrp :: jsnum
  legislativeDistrict :: jsnum
  dolVehicleId :: string
  vehicleLocation :: string
  electricUtility :: string
  censusTract :: string

record engine =
  rawData :: "EVRecord list"

definition new_engine :: engine where
  \<comment> \<open>\<^verbatim>\<open>private rawData: EVRecord[] = []\<close>\<close>
  "new_engine = \<lparr>rawData = []\<rparr>"

section \<open>Loading\<close>

definition parseRow :: "string list \<Rightarrow> EVRecord" where
  "parseRow row =
     \<lparr>vin = or_empty (js_index row 0),
      county = or_empty (js_index row 1),
      city = or_empty (js_index row 2),
      state = or_empty (js_index row 3),
      postalCode = or_empty (js_index row 4),
      modelYear = or_zero (parseInt (js_index row 5)),
      make' = or_empty (js_index row 6),
      model = or_empty (js_index row 7),
      electricVehicleType = js_index row 8,
      cafvEligibility = or_empty (js_index row 9),
      electricRange = or_zero (parseInt (js_index row 10)),
      baseMsrp = or_zero (parseInt (js_index row 11)),
      legislativeDistrict = or_zero (parseInt (js_index row 12)),
      dolVehicleId = or_empty (js_index row 13),
      vehicleLocation = or_empty (js_index row 14),
      electricUtility = or_empty (js_index row 15),
      censusTract = or_empty (js_index row 16)\<rparr>"

datatype load_error = SourceUnreadable string

datatype source =
    Unreadable load_error
  | Readable "string list list"

definition try_parseRow :: "string list \<Rightarrow> EVRecord option" where
  \<comment> \<open>the \<^verbatim>\<open>try\<close> around \<^verbatim>\<open>parseRow\<close>: no operation of \<^verbatim>\<open>parseRow\<close> throws on
     an array of strings, so the handler's \<^verbatim>\<open>null\<close> is never produced\<close>
  "try_parseRow row = Some (parseRow row)"

definition loadData :: "source \<Rightarrow> engine \<Rightarrow> (load_error + EVRecord list) \<times> engine" where
  "loadData src eng =
     (case src of
        Unreadable e \<Rightarrow> (Inl e, eng)
      | Readable rows \<Rightarrow>
          (let processedData = List.map_filter try_parseRow (drop 1 rows)
           in (Inr processedData, eng\<lparr>rawData := processedData\<rparr>)))"


text \<open>
  What \<^verbatim>\<open>await fetch(csvPath)\<close> and \<^verbatim>\<open>await response.text()\<close> give: the promise
  rejects (no answer from the network), or it resolves with an answer of some HTTP
  status, whose body \<^verbatim>\<open>Papa.parse\<close> turns into rows. \<^verbatim>\<open>loadData\<close> never reads
  \<^verbatim>\<open>response.ok\<close> or \<^verbatim>\<open>response.status\<close>, so an answer of any status is a readable
  source.
\<close>

datatype fetch_outcome =
    Rejected string
  | Resolved nat "string list list"

definition source_of :: "fetch_outcome \<Rightarrow> source" where
  "source_of f =
     (case f of
        Rejected e \<Rightarrow> Unreadable (SourceUnreadable e)
      | Resolved status rows \<Rightarrow> Readable rows)"

section \<open>The aggregate types\<close>

text \<open>
  The aggregate interfaces of \<^verbatim>\<open>types/ev-data.ts\<close>. Their fields share names
  (\<^verbatim>\<open>count\<close>, \<^verbatim>\<open>percentage\<close>, \<^verbatim>\<open>county\<close>, \<^verbatim>\<open>make\<close>), so each field carries its
  interface's initials. A count is the length of an array or a number of loop
  iterations over one: a natural number below \<open>2 ^ 32\<close>, exact as a \<^verbatim>\<open>number\<close>;
  \<^const>\<open>num\<close> takes it into the arithmetic.
\<close>

record CountyData =
  cd_county :: string
  cd_count :: nat
  cd_percentage :: jsnum

record YearlyData =
  yd_year :: jsnum
  yd_count :: nat
  yd_bevCount :: nat
  yd_phevCount :: nat

record MakeData =
  md_make :: string
  md_count :: nat
  md_percentage :: jsnum
  md_avgRange :: jsnum

record ModelData =
  mo_make :: "string option"
  mo_model :: "string option"
  mo_count :: nat
  mo_avgRange :: jsnum
  mo_avgYear :: jsnum

record RangeDistribution =
  rd_rangeGroup :: string
  rd_count :: nat
  rd_percentage :: jsnum

record UtilityData =
  ud_utility :: string
  ud_count :: nat
  ud_percentage :: jsnum

record DashboardStats =
  totalVehicles :: nat
  avgElectricRange :: jsnum
  bevPercentage :: jsnum
  phevPercentage :: jsnum
  topCounty :: string
  topMake :: string
  latestYear :: jsnum
  earliestYear :: jsnum

section \<open>The queries\<close>

definition BEV :: string where
  "BEV = ''Battery Electric Vehicle (BEV)''"

definition PHEV :: string where
  "PHEV = ''Plug-in Hybrid Electric Vehicle (PHEV)''"

definition percent2 :: "nat \<Rightarrow> nat \<Rightarrow> jsnum" where
  \<comment> \<open>\<^verbatim>\<open>Math.round((count / total) * 100 * 100) / 100\<close>\<close>
  "percent2 c n =
     fdiv (Math_round (fmul (fmul (fdiv (num c) (num n)) (Fin 100)) (Fin 100))) (Fin 100)"

definition by_count_desc :: "('a \<Rightarrow> nat) \<Rightarrow> 'a \<Rightarrow> 'a \<Rightarrow> jsnum" where
  \<comment> \<open>\<^verbatim>\<open>(a, b) => b.count - a.count\<close>\<close>
  "by_count_desc cnt a b = fsub (num (cnt b)) (num (cnt a))"

definition county_step :: "(string \<times> nat) list \<Rightarrow> EVRecord \<Rightarrow> (string \<times> nat) list" where
  "county_step countMap vehicle =
     (if county vehicle \<noteq> []
      then AList.update (county vehicle)
             ((case map_of countMap (county vehicle) of None \<Rightarrow> 0 | Some c \<Rightarrow> c) + 1) countMap
      else countMap)"

definition getCountyDistribution :: "engine \<Rightarrow> CountyData list" where
  "getCountyDistribution eng =
     (let countMap = foldl county_step [] (rawData eng);
          total' = length (rawData eng)
      in js_sort (by_count_desc cd_count)
           (map (\<lambda>(c, n). \<lparr>cd_county = c, cd_count = n, cd_percentage = percent2 n total'\<rparr>)
              countMap))"

text \<open>The accumulator of a year: \<^verbatim>\<open>{ total, bev, phev }\<close>.\<close>

definition year_step ::
  "(jsnum \<times> nat \<times> nat \<times> nat) list \<Rightarrow> EVRecord \<Rightarrow> (jsnum \<times> nat \<times> nat \<times> nat) list" where
  "year_step yearMap vehicle =
     (if js_gt (modelYear vehicle) (Fin 0)
      then (case (case map_of yearMap (modelYear vehicle) of
                    None \<Rightarrow> (0, 0, 0) | Some e \<Rightarrow> e) of
              (total', bev, phev) \<Rightarrow>
                AList.update (modelYear vehicle)
                  (total' + 1,
                   if electricVehicleType vehicle = Some BEV then bev + 1 else bev,
                   if electricVehicleType vehicle = Some BEV then phev
                   else if electricVehicleType vehicle = Some PHEV then phev + 1 else phev)
                  yearMap)
      else yearMap)"

definition getYearlyTrends :: "engine \<Rightarrow> YearlyData list" where
  "getYearlyTrends eng =
     (let yearMap = foldl year_step [] (rawData eng)
      in js_sort (\<lambda>a b. fsub (yd_year a) (yd_year b))
           (map (\<lambda>(y, total', bev, phev).
                   \<lparr>yd_year = y, yd_count = total', yd_bevCount = bev, yd_phevCount = phev\<rparr>)
              yearMap))"

text \<open>The accumulator of a make: \<^verbatim>\<open>{ count, totalRange, rangeCount }\<close>.\<close>

definition make_step ::
  "(string \<times> nat \<times> jsnum \<times> nat) list \<Rightarrow> EVRecord \<Rightarrow> (string \<times> nat \<times> jsnum \<times> nat) list" where
  "make_step makeMap vehicle =
     (if make' vehicle \<noteq> []
      then (case (case map_of makeMap (make' vehicle) of
                    None \<Rightarrow> (0, Fin 0, 0) | Some e \<Rightarrow> e) of
              (cnt, totalRange, rangeCount) \<Rightarrow>
                AList.update (make' vehicle)
                  (if js_gt (electricRange vehicle) (Fin 0)
                   then (cnt + 1, fadd totalRange (electricRange vehicle), rangeCount + 1)
                   else (cnt + 1, totalRange, rangeCount))
                  makeMap)
      else makeMap)"

definition average :: "jsnum \<Rightarrow> nat \<Rightarrow> jsnum" where
  \<comment> \<open>\<^verbatim>\<open>n > 0 ? Math.round(s / n) : 0\<close>\<close>
  "average s n = (if 0 < n then Math_round (fdiv s (num n)) else Fin 0)"

definition getMakeDistribution :: "engine \<Rightarrow> MakeData list" where
  "getMakeDistribution eng =
     (let makeMap = foldl make_step [] (rawData eng);
          total' = length (rawData eng)
      in js_sort (by_count_desc md_count)
           (map (\<lambda>(m, cnt, totalRange, rangeCount).
                   \<lparr>md_make = m, md_count = cnt, md_percentage = percent2 cnt total',
                    md_avgRange = average totalRange rangeCount\<rparr>)
              makeMap))"

text \<open>
  The accumulator of a model:
  \<^verbatim>\<open>{ count, totalRange, rangeCount, totalYear, yearCount }\<close>.
\<close>

definition model_key :: "EVRecord \<Rightarrow> string" where
  \<comment> \<open>the template \<^verbatim>\<open>${vehicle.make}|${vehicle.model}\<close>\<close>
  "model_key vehicle = make' vehicle @ ''|'' @ model vehicle"

definition model_step ::
  "(string \<times> nat \<times> jsnum \<times> nat \<times> jsnum \<times> nat) list \<Rightarrow> EVRecord
     \<Rightarrow> (string \<times> nat \<times> jsnum \<times> nat \<times> jsnum \<times> nat) list" where
  "model_step modelMap vehicle =
     (if make' vehicle \<noteq> [] \<and> model vehicle \<noteq> []
      then (case (case map_of modelMap (model_key vehicle) of
                    None \<Rightarrow> (0, Fin 0, 0, Fin 0, 0) | Some e \<Rightarrow> e) of
              (cnt, totalRange, rangeCount, totalYear, yearCount) \<Rightarrow>
                AList.update (model_key vehicle)
                  (cnt + 1,
                   if js_gt (electricRange vehicle) (Fin 0)
                   then fadd totalRange (electricRange vehicle) else totalRange,
                   if js_gt (electricRange vehicle) (Fin 0) then rangeCount + 1 else rangeCount,
                   if js_gt (modelYear vehicle) (Fin 0)
                   then fadd totalYear (modelYear vehicle) else totalYear,
                   if js_gt (modelYear vehicle) (Fin 0) then yearCount + 1 else yearCount)
                  modelMap)
      else modelMap)"

definition model_entry :: "string \<times> nat \<times> jsnum \<times> nat \<times> jsnum \<times> nat \<Rightarrow> ModelData" where
  \<comment> \<open>\<^verbatim>\<open>const [make, model] = key.split('|')\<close> and the object built from them\<close>
  "model_entry = (\<lambda>(key, cnt, totalRange, rangeCount, totalYear, yearCount).
     \<lparr>mo_make = js_index (split_on CHR ''|'' key) 0,
      mo_model = js_index (split_on CHR ''|'' key) 1,
      mo_count = cnt,
      mo_avgRange = average totalRange rangeCount,
      mo_avgYear = average totalYear yearCount\<rparr>)"

definition getTopModels :: "jsnum option \<Rightarrow> engine \<Rightarrow> ModelData list" where
  \<comment> \<open>\<^verbatim>\<open>getTopModels(limit: number = 10)\<close>: \<^term>\<open>None\<close> is the omitted argument\<close>
  "getTopModels limit eng =
     (let modelMap = foldl model_step [] (rawData eng)
      in slice0 (js_sort (by_count_desc mo_count) (map model_entry modelMap))
           (case limit of None \<Rightarrow> Fin 10 | Some l \<Rightarrow> l))"

definition ranges :: "(jsnum \<times> jsnum \<times> string) list" where
  \<comment> \<open>\<^verbatim>\<open>{ min, max, label }\<close>\<close>
  "ranges =
     [(Fin 0, Fin 50, ''0-50 miles''),
      (Fin 51, Fin 100, ''51-100 miles''),
      (Fin 101, Fin 150, ''101-150 miles''),
      (Fin 151, Fin 200, ''151-200 miles''),
      (Fin 201, Fin 250, ''201-250 miles''),
      (Fin 251, Fin 300, ''251-300 miles''),
      (Fin 301, PInf, ''300+ miles'')]"

definition getRangeDistribution :: "engine \<Rightarrow> RangeDistribution list" where
  "getRangeDistribution eng =
     (let validRanges = filter (\<lambda>v. js_gt (electricRange v) (Fin 0)) (rawData eng);
          total' = length validRanges
      in filter (\<lambda>r. 0 < rd_count r)
           (map (\<lambda>(lo, hi, label).
                   (let cnt = length (filter (\<lambda>v. js_ge (electricRange v) lo
                                               \<and> js_le (electricRange v) hi) validRanges)
                    in \<lparr>rd_rangeGroup = label, rd_count = cnt,
                        rd_percentage = percent2 cnt total'\<rparr>))
              ranges))"

definition utility_bump :: "(string \<times> nat) list \<Rightarrow> string \<Rightarrow> (string \<times> nat) list" where
  "utility_bump utilityMap u =
     (if u \<noteq> []
      then AList.update u ((case map_of utilityMap u of None \<Rightarrow> 0 | Some c \<Rightarrow> c) + 1) utilityMap
      else utilityMap)"

definition utility_step :: "(string \<times> nat) list \<Rightarrow> EVRecord \<Rightarrow> (string \<times> nat) list" where
  "utility_step utilityMap vehicle =
     (if electricUtility vehicle \<noteq> []
      then foldl utility_bump utilityMap
             (map trim (split_on CHR ''|'' (electricUtility vehicle)))
      else utilityMap)"

definition getUtilityDistribution :: "engine \<Rightarrow> UtilityData list" where
  "getUtilityDistribution eng =
     (let utilityMap = foldl utility_step [] (rawData eng);
          total' = length (rawData eng)
      in slice0
           (js_sort (by_count_desc ud_count)
              (map (\<lambda>(u, n). \<lparr>ud_utility = u, ud_count = n, ud_percentage = percent2 n total'\<rparr>)
                 utilityMap))
           (Fin 10))"

definition top_name :: "string option \<Rightarrow> string" where
  \<comment> \<open>\<^verbatim>\<open>stats[0]?.name || 'N/A'\<close>\<close>
  "top_name s = (case s of None \<Rightarrow> ''N/A'' | Some t \<Rightarrow> if t = [] then ''N/A'' else t)"

definition getDashboardStats :: "engine \<Rightarrow> DashboardStats" where
  "getDashboardStats eng =
     (let totalVehicles = length (rawData eng);
          validRanges = filter (\<lambda>v. js_gt (electricRange v) (Fin 0)) (rawData eng);
          avgElectricRange =
            (if 0 < length validRanges
             then Math_round
                    (fdiv (foldl (\<lambda>sum v. fadd sum (electricRange v)) (Fin 0) validRanges)
                       (num (length validRanges)))
             else Fin 0);
          bevCount = length (filter (\<lambda>v. electricVehicleType v = Some BEV) (rawData eng));
          phevCount = length (filter (\<lambda>v. electricVehicleType v = Some PHEV) (rawData eng));
          bevPercentage = Math_round (fmul (fdiv (num bevCount) (num totalVehicles)) (Fin 100));
          phevPercentage = Math_round (fmul (fdiv (num phevCount) (num totalVehicles)) (Fin 100));
          countyStats = getCountyDistribution eng;
          makeStats = getMakeDistribution eng;
          years = filter (\<lambda>y. js_gt y (Fin 0)) (map modelYear (rawData eng))
      in \<lparr>totalVehicles = totalVehicles,
          avgElectricRange = avgElectricRange,
          bevPercentage = bevPercentage,
          phevPercentage = phevPercentage,
          topCounty = top_name (map_option cd_county (js_index countyStats 0)),
          topMake = top_name (map_option md_make (js_index makeStats 0)),
          latestYear = or_zero (Math_max years),
          earliestYear = or_zero (Math_min years)\<rparr>)"

definition getRawData :: "engine \<Rightarrow> EVRecord list" where
  "getRawData eng = rawData eng"

text \<open>
  The query interface as the consumers see it: a method call on the engine object,
  which answers and leaves the object behind.
\<close>

datatype query =
    GetDashboardStats
  | GetCountyDistribution
  | GetYearlyTrends
  | GetMakeDistribution
  | GetTopModels "jsnum option"
  | GetRangeDistribution
  | GetUtilityDistribution
  | GetRawData

datatype response =
    Stats DashboardStats
  | Counties "CountyData list"
  | Years "YearlyData list"
  | Makes "MakeData list"
  | Models "ModelData list"
  | Ranges "RangeDistribution list"
  | Utilities "UtilityData list"
  | Raw "EVRecord list"

fun call :: "query \<Rightarrow> engine \<Rightarrow> response \<times> engine" where
  "call GetDashboardStats eng = (Stats (getDashboardStats eng), eng)"
| "call GetCountyDistribution eng = (Counties (getCountyDistribution eng), eng)"
| "call GetYearlyTrends eng = (Years (getYearlyTrends eng), eng)"
| "call GetMakeDistribution eng = (Makes (getMakeDistribution eng), eng)"
| "call (GetTopModels limit) eng = (Models (getTopModels limit eng), eng)"
| "call GetRangeDistribution eng = (Ranges (getRangeDistribution eng), eng)"
| "call GetUtilityDistribution eng = (Utilities (getUtilityDistribution eng), eng)"
| "call GetRawData eng = (Raw (getRawData eng), eng)"


section \<open>Example data\<close>

text \<open>
  A header and three data rows: two vehicles of model year 2021 in King county, one
  battery electric with a range of 200 miles and one plug-in hybrid of unknown range,
  and a battery electric vehicle of 2022 in Pierce county with a range of 300 miles.
\<close>

definition ex_header :: "string list" where
  "ex_header = [''VIN (1-10)'', ''County'', ''City'', ''State'', ''Postal Code'',
     ''Model Year'', ''Make'', ''Model'', ''Electric Vehicle Type'', ''CAFV Eligibility'',
     ''Electric Range'', ''Base MSRP'', ''Legislative District'', ''DOL Vehicle ID'',
     ''Vehicle Location'', ''Electric Utility'', ''2020 Census Tract'']"

definition ex_row1 :: "string list" where
  "ex_row1 = [''5YJ3E1EA0K'', ''King'', ''Seattle'', ''WA'', ''98101'', ''2021'', ''TESLA'',
     ''MODEL 3'', ''Battery Electric Vehicle (BEV)'', ''Eligible'', ''200'', ''0'', ''43'',
     ''1001'', ''POINT (1 2)'', ''CITY OF SEATTLE - (WA)|CITY OF TACOMA - (WA)'', ''53033'']"

definition ex_row2 :: "string list" where
  "ex_row2 = [''JTDKN3DP0D'', ''King'', ''Bellevue'', ''WA'', ''98004'', ''2021'', ''TOYOTA'',
     ''PRIUS'', ''Plug-in Hybrid Electric Vehicle (PHEV)'', ''Unknown'', ''0'', ''0'', ''41'',
     ''1002'', ''POINT (3 4)'', ''PUGET SOUND ENERGY INC'', ''53033'']"

definition ex_row3 :: "string list" where
  "ex_row3 = [''5YJSA1E20F'', ''Pierce'', ''Tacoma'', ''WA'', ''98402'', ''2022'', ''TESLA'',
     ''MODEL S'', ''Battery Electric Vehicle (BEV)'', ''Eligible'', ''300'', ''0'', ''27'',
     ''1003'', ''POINT (5 6)'', ''CITY OF TACOMA - (WA)'', ''53053'']"

definition ex_engine :: engine where
  "ex_engine = snd (loadData (Readable [ex_header, ex_row1, ex_row2, ex_row3]) new_engine)"

definition ex_bad_row :: "string list" where
  \<comment> \<open>the second row with a model year that is no number\<close>
  "ex_bad_row = ex_row2[5 := ''n/a'']"

definition ex_pipe_engine :: engine where
  \<comment> \<open>two vehicles whose makes and models differ and whose keys are both \<^verbatim>\<open>A|B|C\<close>\<close>
  "ex_pipe_engine =
     snd (loadData
            (Readable [ex_header, ex_row2[6 := ''A|B'', 7 := ''C''], ex_row2[6 := ''A'', 7 := ''B|C'']])
            new_engine)"

definition ex_blank_engine :: engine where
  \<comment> \<open>the three vehicles, the second with an empty county field\<close>
  "ex_blank_engine =
     snd (loadData (Readable [ex_header, ex_row1, ex_row2[1 := []], ex_row3]) new_engine)"

definition ex_digits_row :: "string list" where
  \<comment> \<open>the second row with a model year that begins with digits and is no number\<close>
  "ex_digits_row = ex_row2[5 := ''2021abc'']"

definition ex_not_found_page :: "string list list" where
  \<comment> \<open>the lines of an error page, as \<^verbatim>\<open>Papa.parse\<close> reads them: one field each\<close>
  "ex_not_found_page =
     [[''<!DOCTYPE html>''], [''<h1>404: This page could not be found.</h1>'']]"

section \<open>The engine object and its arrays in a store\<close>

text \<open>
  The definitions above compute what a query returns from the records. Whether a query
  changes what the engine holds depends on which arrays the methods write to, so the
  class is now read once more with its arrays in a store. An address holds an array or
  an object; \<^verbatim>\<open>this.rawData\<close> is an address, the field of the engine object.
  \<^verbatim>\<open>Array.from\<close>, \<^verbatim>\<open>map\<close>, \<^verbatim>\<open>filter\<close>, \<^verbatim>\<open>slice\<close> and an array or object literal
  allocate a new address; \<^verbatim>\<open>sort\<close> writes the sorted array to the address of the array
  it is called on and returns that address; \<^verbatim>\<open>getRawData\<close> returns the address in
  \<^verbatim>\<open>this.rawData\<close> itself. The engine has no other field. A \<^verbatim>\<open>Map\<close> and the
  accumulator objects in it are local to one call and reachable from the map alone; they
  stay values, as do the arrays that a callback builds only to take their length.
\<close>

type_synonym addr = nat

datatype elem =
    ENum jsnum
  | ECount "string \<times> nat"
  | EYear "jsnum \<times> nat \<times> nat \<times> nat"
  | EMake "string \<times> nat \<times> jsnum \<times> nat"
  | EModel "string \<times> nat \<times> jsnum \<times> nat \<times> jsnum \<times> nat"
  | ERangeDef "jsnum \<times> jsnum \<times> string"
  | ECounty CountyData
  | EYearly YearlyData
  | EMakeData MakeData
  | EModelData ModelData
  | ERange RangeDistribution
  | EUtility UtilityData

datatype cell =
    Records "EVRecord list"
  | Arr "elem list"
  | Obj DashboardStats

record machine =
  heap :: "cell list"
  this_rawData :: addr

definition arr_new :: "cell \<Rightarrow> machine \<Rightarrow> (addr \<times> machine) option" where
  \<comment> \<open>a new array or object at the next free address\<close>
  "arr_new c m = Some (length (heap m), m\<lparr>heap := heap m @ [c]\<rparr>)"

definition cell_at :: "machine \<Rightarrow> addr \<Rightarrow> cell option" where
  "cell_at m a = (if a < length (heap m) then Some (heap m ! a) else None)"

definition read_records :: "addr \<Rightarrow> machine \<Rightarrow> EVRecord list option" where
  "read_records a m = (case cell_at m a of Some (Records rs) \<Rightarrow> Some rs | _ \<Rightarrow> None)"

definition read_arr :: "addr \<Rightarrow> machine \<Rightarrow> elem list option" where
  "read_arr a m = (case cell_at m a of Some (Arr xs) \<Rightarrow> Some xs | _ \<Rightarrow> None)"

definition rec_filter :: "(EVRecord \<Rightarrow> bool) \<Rightarrow> addr \<Rightarrow> machine \<Rightarrow> (addr \<times> machine) option" where
  "rec_filter P a m = do { rs \<leftarrow> read_records a m; arr_new (Records (filter P rs)) m }"

definition rec_map :: "(EVRecord \<Rightarrow> elem) \<Rightarrow> addr \<Rightarrow> machine \<Rightarrow> (addr \<times> machine) option" where
  "rec_map f a m = do { rs \<leftarrow> read_records a m; arr_new (Arr (map f rs)) m }"

definition arr_map :: "(elem \<Rightarrow> elem) \<Rightarrow> addr \<Rightarrow> machine \<Rightarrow> (addr \<times> machine) option" where
  "arr_map f a m = do { xs \<leftarrow> read_arr a m; arr_new (Arr (map f xs)) m }"

definition arr_filter :: "(elem \<Rightarrow> bool) \<Rightarrow> addr \<Rightarrow> machine \<Rightarrow> (addr \<times> machine) option" where
  "arr_filter P a m = do { xs \<leftarrow> read_arr a m; arr_new (Arr (filter P xs)) m }"

definition arr_slice0 :: "jsnum \<Rightarrow> addr \<Rightarrow> machine \<Rightarrow> (addr \<times> machine) option" where
  "arr_slice0 end a m = do { xs \<leftarrow> read_arr a m; arr_new (Arr (slice0 xs end)) m }"

definition arr_sort ::
  "(elem \<Rightarrow> elem \<Rightarrow> jsnum) \<Rightarrow> addr \<Rightarrow> machine \<Rightarrow> (addr \<times> machine) option" where
  \<comment> \<open>in place: the array at \<open>a\<close> is overwritten and \<open>a\<close> is returned\<close>
  "arr_sort cmp a m =
     do { xs \<leftarrow> read_arr a m; Some (a, m\<lparr>heap := (heap m)[a := Arr (js_sort cmp xs)]\<rparr>) }"

fun count_of :: "elem \<Rightarrow> nat" where
  \<comment> \<open>the property \<^verbatim>\<open>count\<close>\<close>
  "count_of (ECounty c) = cd_count c"
| "count_of (EYearly y) = yd_count y"
| "count_of (EMakeData d) = md_count d"
| "count_of (EModelData d) = mo_count d"
| "count_of (ERange r) = rd_count r"
| "count_of (EUtility u) = ud_count u"
| "count_of _ = 0"

fun year_of :: "elem \<Rightarrow> jsnum" where
  \<comment> \<open>the property \<^verbatim>\<open>year\<close>\<close>
  "year_of (EYearly y) = yd_year y"
| "year_of _ = NaN"

fun num_of :: "elem \<Rightarrow> jsnum" where
  "num_of (ENum x) = x"
| "num_of _ = NaN"

fun county_name :: "elem \<Rightarrow> string" where
  "county_name (ECounty c) = cd_county c"
| "county_name _ = []"

fun make_name :: "elem \<Rightarrow> string" where
  "make_name (EMakeData d) = md_make d"
| "make_name _ = []"

definition m_getCountyDistribution :: "machine \<Rightarrow> (addr \<times> machine) option" where
  "m_getCountyDistribution m =
     do { recs \<leftarrow> read_records (this_rawData m) m;
          let countMap = foldl county_step [] recs;
          let total' = length recs;
          (entries, m1) \<leftarrow> arr_new (Arr (map ECount countMap)) m;
          (mapped, m2) \<leftarrow>
            arr_map (\<lambda>e. case e of
                           ECount (c, n) \<Rightarrow>
                             ECounty \<lparr>cd_county = c, cd_count = n, cd_percentage = percent2 n total'\<rparr>
                         | _ \<Rightarrow> e)
              entries m1;
          arr_sort (by_count_desc count_of) mapped m2 }"

definition m_getYearlyTrends :: "machine \<Rightarrow> (addr \<times> machine) option" where
  "m_getYearlyTrends m =
     do { recs \<leftarrow> read_records (this_rawData m) m;
          let yearMap = foldl year_step [] recs;
          (entries, m1) \<leftarrow> arr_new (Arr (map EYear yearMap)) m;
          (mapped, m2) \<leftarrow>
            arr_map (\<lambda>e. case e of
                           EYear (y, total', bev, phev) \<Rightarrow>
                             EYearly \<lparr>yd_year = y, yd_count = total', yd_bevCount = bev,
                                      yd_phevCount = phev\<rparr>
                         | _ \<Rightarrow> e)
              entries m1;
          arr_sort (\<lambda>a b. fsub (year_of a) (year_of b)) mapped m2 }"

definition m_getMakeDistribution :: "machine \<Rightarrow> (addr \<times> machine) option" where
  "m_getMakeDistribution m =
     do { recs \<leftarrow> read_records (this_rawData m) m;
          let makeMap = foldl make_step [] recs;
          let total' = length recs;
          (entries, m1) \<leftarrow> arr_new (Arr (map EMake makeMap)) m;
          (mapped, m2) \<leftarrow>
            arr_map (\<lambda>e. case e of
                           EMake (k, cnt, totalRange, rangeCount) \<Rightarrow>
                             EMakeData \<lparr>md_make = k, md_count = cnt,
                                        md_percentage = percent2 cnt total',
                                        md_avgRange = average totalRange rangeCount\<rparr>
                         | _ \<Rightarrow> e)
              entries m1;
          arr_sort (by_count_desc count_of) mapped m2 }"

definition m_getTopModels :: "jsnum option \<Rightarrow> machine \<Rightarrow> (addr \<times> machine) option" where
  "m_getTopModels limit m =
     do { recs \<leftarrow> read_records (this_rawData m) m;
          let modelMap = foldl model_step [] recs;
          (entries, m1) \<leftarrow> arr_new (Arr (map EModel modelMap)) m;
          (mapped, m2) \<leftarrow>
            arr_map (\<lambda>e. case e of EModel t \<Rightarrow> EModelData (model_entry t) | _ \<Rightarrow> e) entries m1;
          (sorted, m3) \<leftarrow> arr_sort (by_count_desc count_of) mapped m2;
          arr_slice0 (case limit of None \<Rightarrow> Fin 10 | Some l \<Rightarrow> l) sorted m3 }"

definition m_getRangeDistribution :: "machine \<Rightarrow> (addr \<times> machine) option" where
  "m_getRangeDistribution m =
     do { (table, m1) \<leftarrow> arr_new (Arr (map ERangeDef ranges)) m;
          (validRanges, m2) \<leftarrow>
            rec_filter (\<lambda>v. js_gt (electricRange v) (Fin 0)) (this_rawData m1) m1;
          valid \<leftarrow> read_records validRanges m2;
          let total' = length valid;
          (mapped, m3) \<leftarrow>
            arr_map (\<lambda>e. case e of
                           ERangeDef (lo, hi, label) \<Rightarrow>
                             (let cnt = length (filter (\<lambda>v. js_ge (electricRange v) lo
                                                          \<and> js_le (electricRange v) hi) valid)
                              in ERange \<lparr>rd_rangeGroup = label, rd_count = cnt,
                                         rd_percentage = percent2 cnt total'\<rparr>)
                         | _ \<Rightarrow> e)
              table m2;
          arr_filter (\<lambda>e. 0 < count_of e) mapped m3 }"

definition m_getUtilityDistribution :: "machine \<Rightarrow> (addr \<times> machine) option" where
  "m_getUtilityDistribution m =
     do { recs \<leftarrow> read_records (this_rawData m) m;
          let utilityMap = foldl utility_step [] recs;
          let total' = length recs;
          (entries, m1) \<leftarrow> arr_new (Arr (map ECount utilityMap)) m;
          (mapped, m2) \<leftarrow>
            arr_map (\<lambda>e. case e of
                           ECount (u, n) \<Rightarrow>
                             EUtility \<lparr>ud_utility = u, ud_count = n,
                                       ud_percentage = percent2 n total'\<rparr>
                         | _ \<Rightarrow> e)
              entries m1;
          (sorted, m3) \<leftarrow> arr_sort (by_count_desc count_of) mapped m2;
          arr_slice0 (Fin 10) sorted m3 }"

definition m_getDashboardStats :: "machine \<Rightarrow> (addr \<times> machine) option" where
  "m_getDashboardStats m =
     do { recs \<leftarrow> read_records (this_rawData m) m;
          let totalVehicles = length recs;
          (validRanges, m1) \<leftarrow>
            rec_filter (\<lambda>v. js_gt (electricRange v) (Fin 0)) (this_rawData m) m;
          valid \<leftarrow> read_records validRanges m1;
          let avgElectricRange =
                (if 0 < length valid
                 then Math_round
                        (fdiv (foldl (\<lambda>sum v. fadd sum (electricRange v)) (Fin 0) valid)
                           (num (length valid)))
                 else Fin 0);
          let bevCount = length (filter (\<lambda>v. electricVehicleType v = Some BEV) recs);
          let phevCount = length (filter (\<lambda>v. electricVehicleType v = Some PHEV) recs);
          let bevPercentage = Math_round (fmul (fdiv (num bevCount) (num totalVehicles)) (Fin 100));
          let phevPercentage = Math_round (fmul (fdiv (num phevCount) (num totalVehicles)) (Fin 100));
          (countyStats, m2) \<leftarrow> m_getCountyDistribution m1;
          (makeStats, m3) \<leftarrow> m_getMakeDistribution m2;
          (allYears, m4) \<leftarrow> rec_map (\<lambda>v. ENum (modelYear v)) (this_rawData m3) m3;
          (years, m5) \<leftarrow> arr_filter (\<lambda>e. js_gt (num_of e) (Fin 0)) allYears m4;
          cs \<leftarrow> read_arr countyStats m5;
          ms \<leftarrow> read_arr makeStats m5;
          ys \<leftarrow> read_arr years m5;
          arr_new
            (Obj \<lparr>totalVehicles = totalVehicles,
                  avgElectricRange = avgElectricRange,
                  bevPercentage = bevPercentage,
                  phevPercentage = phevPercentage,
                  topCounty = top_name (map_option county_name (js_index cs 0)),
                  topMake = top_name (map_option make_name (js_index ms 0)),
                  latestYear = or_zero (Math_max (map num_of ys)),
                  earliestYear = or_zero (Math_min (map num_of ys))\<rparr>)
            m5 }"

definition m_getRawData :: "machine \<Rightarrow> (addr \<times> machine) option" where
  \<comment> \<open>\<^verbatim>\<open>return this.rawData\<close>: the array itself, not a copy\<close>
  "m_getRawData m = Some (this_rawData m, m)"

fun run :: "query \<Rightarrow> machine \<Rightarrow> (addr \<times> machine) option" where
  "run GetDashboardStats m = m_getDashboardStats m"
| "run GetCountyDistribution m = m_getCountyDistribution m"
| "run GetYearlyTrends m = m_getYearlyTrends m"
| "run GetMakeDistribution m = m_getMakeDistribution m"
| "run (GetTopModels limit) m = m_getTopModels limit m"
| "run GetRangeDistribution m = m_getRangeDistribution m"
| "run GetUtilityDistribution m = m_getUtilityDistribution m"
| "run GetRawData m = m_getRawData m"

fun cell_of :: "response \<Rightarrow> cell" where
  \<comment> \<open>an answer, as the array or object a consumer finds at the returned address\<close>
  "cell_of (Stats s) = Obj s"
| "cell_of (Counties xs) = Arr (map ECounty xs)"
| "cell_of (Years xs) = Arr (map EYearly xs)"
| "cell_of (Makes xs) = Arr (map EMakeData xs)"
| "cell_of (Models xs) = Arr (map EModelData xs)"
| "cell_of (Ranges xs) = Arr (map ERange xs)"
| "cell_of (Utilities xs) = Arr (map EUtility xs)"
| "cell_of (Raw rs) = Records rs"

definition ex_machine :: machine where
  \<comment> \<open>a store with an unrelated array at address 0 and the example records at address 1\<close>
  "ex_machine = \<lparr>heap = [Arr [], Records (rawData ex_engine)], this_rawData = 1\<rparr>"

section \<open>Notions of the specification\<close>

definition no_leading_digit :: "string \<Rightarrow> bool" where
  \<comment> \<open>after leading white space and an optional sign, no decimal digit follows\<close>
  "no_leading_digit s =
     (case dropWhile is_white s of
        [] \<Rightarrow> True
      | c # cs \<Rightarrow>
          if c = CHR ''+'' \<or> c = CHR ''-''
          then (case cs of [] \<Rightarrow> True | d # _ \<Rightarrow> digit_val 10 d = None)
          else digit_val 10 c = None)"

section \<open>Facts about the number model\<close>

lemma bitlen_bounds: "0 < n \<Longrightarrow> 2 ^ (bitlen n - 1) \<le> n \<and> n < 2 ^ bitlen n"
proof (induction n rule: bitlen.induct)
  case (1 n)
  show ?case
  proof (cases "n div 2 \<le> 0")
    case True
    with "1.prems" have "n = 1" by linarith
    then show ?thesis by (simp add: bitlen.simps [of 1] bitlen.simps [of 0])
  next
    case False
    then have pos: "0 < n div 2" by simp
    with "1.IH" "1.prems" have IH: "2 ^ (bitlen (n div 2) - 1) \<le> n div 2" "n div 2 < 2 ^ bitlen (n div 2)"
      by auto
    have bl: "bitlen n = Suc (bitlen (n div 2))" using "1.prems" by (subst bitlen.simps) simp
    have b1: "0 < bitlen (n div 2)" using pos by (subst bitlen.simps) simp
    then obtain k where k: "bitlen (n div 2) = Suc k" by (cases "bitlen (n div 2)") auto
    have "2 * 2 ^ k \<le> 2 * (n div 2)" using IH(1) k by simp
    also have "\<dots> \<le> n" by linarith
    finally have lo: "2 ^ (bitlen n - 1) \<le> n" using bl k by simp
    have "n < 2 * (n div 2) + 2" by linarith
    also have "\<dots> \<le> 2 * 2 ^ bitlen (n div 2)" using IH(2) by linarith
    finally have "n < 2 ^ bitlen n" using bl by simp
    with lo show ?thesis by simp
  qed
qed

lemma bitlen_pos: "0 < n \<Longrightarrow> 0 < bitlen n"
  by (subst bitlen.simps) simp

lemma pow2_powi: "pow2 k = 2 powi k"
  by (simp add: pow2_def power_int_def inverse_eq_divide power_one_over)

lemma pow2_pos [simp]: "0 < pow2 k"
  by (simp add: pow2_def)

lemma pow2_add: "pow2 (a + b) = pow2 a * pow2 b"
  by (simp add: pow2_powi power_int_add)

lemma pow2_mono: "a \<le> b \<Longrightarrow> pow2 a \<le> pow2 b"
  by (simp add: pow2_powi power_int_increasing)

lemma pow2_strict_mono: "a < b \<Longrightarrow> pow2 a < pow2 b"
  by (simp add: pow2_powi power_int_strict_increasing)

lemma pow2_less_cancel: "pow2 a < pow2 b \<Longrightarrow> a < b"
  using pow2_mono [of b a] by (cases "a < b") auto

lemma pow2_nat: "pow2 (int n) = 2 ^ n"
  by (simp add: pow2_def)

lemma pow2_neg: "pow2 (- int n) = 1 / 2 ^ n"
  by (simp add: pow2_powi power_int_minus inverse_eq_divide)

lemma binade_bounds:
  assumes "0 < x"
  shows "pow2 (binade x) \<le> x" and "x < pow2 (binade x + 1)"
proof -
  have "pow2 (binade x) \<le> x \<and> x < pow2 (binade x + 1)"
  proof (cases "1 \<le> x")
    case True
    define f where "f = \<lfloor>x\<rfloor>"
    have f1: "1 \<le> f" using True by (simp add: f_def le_floor_iff)
    then have fpos: "0 < f" by simp
    define b where "b = bitlen f"
    from bitlen_bounds [OF fpos] have lo: "2 ^ (b - 1) \<le> f" and hi: "f < 2 ^ b"
      by (simp_all add: b_def)
    have bpos: "0 < b" using bitlen_pos [OF fpos] by (simp add: b_def)
    have e: "binade x = int (b - 1)" using True bpos by (simp add: binade_def f_def b_def)
    have e1: "binade x + 1 = int b" using e bpos by simp
    have "(2::rat) ^ (b - 1) = of_int (2 ^ (b - 1))" by simp
    also have "\<dots> \<le> of_int f" using lo by (simp only: of_int_le_iff)
    also have "\<dots> \<le> x" by (simp add: f_def)
    finally have A: "pow2 (binade x) \<le> x" by (simp add: e pow2_nat)
    have "f + 1 \<le> 2 ^ b" using hi by simp
    then have "(of_int (f + 1) :: rat) \<le> of_int (2 ^ b)" by (simp only: of_int_le_iff)
    moreover have "x < of_int (f + 1)" using floor_correct [of x] by (simp add: f_def)
    ultimately have "x < 2 ^ b" by simp
    then have B: "x < pow2 (binade x + 1)" by (simp add: e1 pow2_nat)
    from A B show ?thesis ..
  next
    case False
    then have x1: "x < 1" by simp
    define y where "y = 1 / x"
    have y1: "1 < y" using assms x1 by (simp add: y_def)
    define m where "m = \<lceil>y\<rceil> - 1"
    have my: "of_int m < y" using ceiling_correct [of y] by (simp add: m_def)
    have ym: "y \<le> of_int m + 1" using ceiling_correct [of y] by (simp add: m_def)
    have m1: "1 \<le> m" using y1 by (simp add: m_def)
    then have mpos: "0 < m" by simp
    define b where "b = bitlen m"
    from bitlen_bounds [OF mpos] have lo: "2 ^ (b - 1) \<le> m" and hi: "m < 2 ^ b"
      by (simp_all add: b_def)
    have bpos: "0 < b" using bitlen_pos [OF mpos] by (simp add: b_def)
    have e: "binade x = - int b" using False by (simp add: binade_def y_def m_def b_def)
    have e1: "binade x + 1 = - int (b - 1)" using e bpos by simp
    have "m + 1 \<le> 2 ^ b" using hi by simp
    then have "(of_int (m + 1) :: rat) \<le> of_int (2 ^ b)" by (simp only: of_int_le_iff)
    with ym have "y \<le> 2 ^ b" by simp
    then have "1 / x \<le> 2 ^ b" by (simp add: y_def)
    then have "1 \<le> 2 ^ b * x" using assms by (simp add: field_simps)
    then have "1 / 2 ^ b \<le> x" by (simp add: field_simps)
    then have A: "pow2 (binade x) \<le> x" by (simp only: e pow2_neg)
    have "(2::rat) ^ (b - 1) = of_int (2 ^ (b - 1))" by simp
    also have "\<dots> \<le> of_int m" using lo by (simp only: of_int_le_iff)
    also have "\<dots> < y" by (rule my)
    finally have "2 ^ (b - 1) < 1 / x" by (simp add: y_def)
    then have "2 ^ (b - 1) * x < 1" using assms by (simp add: field_simps)
    then have "x < 1 / 2 ^ (b - 1)" by (simp add: field_simps)
    then have B: "x < pow2 (binade x + 1)" by (simp only: e1 pow2_neg)
    from A B show ?thesis ..
  qed
  then show "pow2 (binade x) \<le> x" and "x < pow2 (binade x + 1)" by simp_all
qed

lemma rhe_bounds: "\<bar>of_int (round_half_even x) - x\<bar> \<le> 1 / 2"
proof -
  define f where "f = \<lfloor>x\<rfloor>"
  have lo: "of_int f \<le> x" and hi: "x < of_int f + 1"
    using floor_correct [of x] by (simp_all add: f_def)
  consider "x - of_int f < 1 / 2" | "1 / 2 < x - of_int f" | "x - of_int f = 1 / 2"
    by linarith
  then show ?thesis
  proof cases
    case 1
    then have "round_half_even x = f" by (simp add: round_half_even_def f_def)
    with 1 lo show ?thesis by simp
  next
    case 2
    then have "round_half_even x = f + 1" by (simp add: round_half_even_def f_def)
    with 2 hi show ?thesis by simp
  next
    case 3
    then have "round_half_even x = f \<or> round_half_even x = f + 1"
      by (simp add: round_half_even_def f_def Let_def)
    with 3 show ?thesis by auto
  qed
qed

lemma rhe_of_int [simp]: "round_half_even (of_int k) = k"
  by (simp add: round_half_even_def)

lemma rhe_ge_1: "1 \<le> x \<Longrightarrow> 1 \<le> round_half_even x"
proof -
  assume "1 \<le> x"
  then have "1 \<le> \<lfloor>x\<rfloor>" by (simp add: le_floor_iff)
  then show ?thesis by (auto simp: round_half_even_def Let_def)
qed

lemma rhe_nonneg: "0 \<le> x \<Longrightarrow> 0 \<le> round_half_even x"
proof -
  assume "0 \<le> x"
  then have "0 \<le> \<lfloor>x\<rfloor>" by simp
  then show ?thesis by (auto simp: round_half_even_def Let_def)
qed

lemma quantum_pos [simp]: "0 < quantum a"
  by (simp add: quantum_def)

lemma nearest_err: "\<bar>nearest a - a\<bar> \<le> quantum a / 2"
proof -
  have q: "0 < quantum a" by simp
  have qz: "quantum a \<noteq> 0" using quantum_pos [of a] by (metis less_irrefl)
  have "\<bar>of_int (round_half_even (a / quantum a)) - a / quantum a\<bar> * quantum a \<le> 1 / 2 * quantum a"
    by (rule mult_right_mono [OF rhe_bounds]) (simp add: less_imp_le)
  moreover have "\<bar>of_int (round_half_even (a / quantum a)) - a / quantum a\<bar> * quantum a
      = \<bar>nearest a - a\<bar>"
  proof -
    have "\<bar>of_int (round_half_even (a / quantum a)) - a / quantum a\<bar> * quantum a
      = \<bar>(of_int (round_half_even (a / quantum a)) - a / quantum a) * quantum a\<bar>"
      using q by (simp add: abs_mult abs_of_pos)
    also have "(of_int (round_half_even (a / quantum a)) - a / quantum a) * quantum a = nearest a - a"
      using qz by (simp add: nearest_def algebra_simps)
    finally show ?thesis .
  qed
  ultimately show ?thesis by simp
qed

lemma nearest_nonneg: "0 \<le> a \<Longrightarrow> 0 \<le> nearest a"
  by (simp add: nearest_def rhe_nonneg less_imp_le)

lemma nearest_pos: "quantum a \<le> a \<Longrightarrow> 0 < nearest a"
proof -
  assume "quantum a \<le> a"
  then have "1 \<le> a / quantum a" by (simp add: le_divide_eq)
  then have "1 \<le> round_half_even (a / quantum a)" by (rule rhe_ge_1)
  then have "0 < round_half_even (a / quantum a)" by simp
  then show ?thesis by (simp add: nearest_def)
qed

lemma binade_ge: "0 < x \<Longrightarrow> pow2 k \<le> x \<Longrightarrow> k \<le> binade x"
proof -
  assume "0 < x" "pow2 k \<le> x"
  then have "pow2 k < pow2 (binade x + 1)" using binade_bounds(2) [of x] by simp
  then have "k < binade x + 1" by (rule pow2_less_cancel)
  then show ?thesis by simp
qed

lemma quantum_normal:
  assumes "pow2 (- 1022) \<le> x"
  shows "quantum x \<le> x / 2 ^ 52"
proof -
  have xpos: "0 < x" using assms pow2_pos [of "- 1022"] by linarith
  have "- 1022 \<le> binade x" using binade_ge [OF xpos assms] .
  then have "quantum x = pow2 (binade x + (- 52))" by (simp add: quantum_def max_def)
  also have "\<dots> = pow2 (binade x) * pow2 (- 52)" by (rule pow2_add)
  also have "pow2 (- 52) = 1 / 2 ^ 52" using pow2_neg [of 52] by simp
  finally have "quantum x = pow2 (binade x) / 2 ^ 52" by simp
  moreover have "pow2 (binade x) / 2 ^ 52 \<le> x / 2 ^ 52"
    using binade_bounds(1) [OF xpos] by (simp add: divide_right_mono)
  ultimately show ?thesis by simp
qed

lemma pow2_0 [simp]: "pow2 0 = 1"
  by (simp add: pow2_def)

lemma quantum_le_self: "1 \<le> x \<Longrightarrow> quantum x \<le> x"
proof -
  assume x: "1 \<le> x"
  have "pow2 (- 1022) \<le> pow2 0" by (rule pow2_mono) simp
  with x have "pow2 (- 1022) \<le> x" by simp
  then have "quantum x \<le> x / 2 ^ 52" by (rule quantum_normal)
  also have "\<dots> \<le> x" using x by (simp add: field_simps)
  finally show ?thesis .
qed

lemma fl_normal:
  assumes lo: "pow2 (- 1022) \<le> x" and hi: "x < pow2 1023"
  shows "\<exists>r. fl x = Fin r \<and> \<bar>r - x\<bar> \<le> x / 2 ^ 53"
proof -
  have xpos: "0 < x" using lo pow2_pos [of "- 1022"] by linarith
  have "\<bar>nearest x - x\<bar> \<le> quantum x / 2" by (rule nearest_err)
  also have "\<dots> \<le> (x / 2 ^ 52) / 2" using quantum_normal [OF lo] by simp
  also have "\<dots> = x / 2 ^ 53" by simp
  finally have err: "\<bar>nearest x - x\<bar> \<le> x / 2 ^ 53" .
  have "x / 2 ^ 53 \<le> x" using xpos by (simp add: field_simps)
  with err have "nearest x \<le> 2 * x" by linarith
  also have "\<dots> < 2 * pow2 1023" using hi by simp
  also have "\<dots> = pow2 (1 + 1023)" by (simp add: pow2_add pow2_def)
  finally have "nearest x < pow2 1024" by simp
  then have "fl x = Fin (nearest x)" using xpos by (simp add: fl_def)
  with err show ?thesis by blast
qed

lemma fl_of_int_gt0: "js_gt (fl (of_int k)) (Fin 0) \<longleftrightarrow> 0 < k"
proof (cases "0 < k")
  case True
  then have "(1::rat) \<le> of_int k" by simp
  then have "0 < nearest (of_int k)" by (intro nearest_pos quantum_le_self)
  with True show ?thesis by (simp add: fl_def)
next
  case False
  show ?thesis
  proof (cases "k = 0")
    case True then show ?thesis by (simp add: fl_def)
  next
    case nz: False
    with False have neg: "k < 0" by simp
    then have "0 \<le> nearest (- of_int k)" by (intro nearest_nonneg) simp
    with neg show ?thesis by (simp add: fl_def)
  qed
qed

lemma nearest_of_int:
  assumes "1 \<le> k"
  shows "\<exists>j. nearest (of_int k) = of_int j"
proof -
  define a :: rat where "a = of_int k"
  have a1: "1 \<le> a" using assms by (simp add: a_def)
  then have apos: "0 < a" by simp
  have e0: "0 \<le> binade a" using binade_ge [OF apos, of 0] a1 by simp
  then have q: "quantum a = pow2 (binade a - 52)" by (simp add: quantum_def max_def)
  show ?thesis
  proof (cases "52 \<le> binade a")
    case True
    then obtain n where n: "binade a - 52 = int n" using nonneg_int_cases [of "binade a - 52"] by auto
    have "quantum a = of_int (2 ^ n)" by (simp add: q n pow2_nat)
    then have "nearest a = of_int (round_half_even (a / quantum a) * 2 ^ n)"
      by (simp add: nearest_def)
    then show ?thesis unfolding a_def by blast
  next
    case False
    then obtain n where n: "binade a - 52 = - int n" using nonpos_int_cases [of "binade a - 52"] by auto
    have qq: "quantum a = 1 / 2 ^ n" by (simp add: q n pow2_neg)
    have "a / quantum a = a * 2 ^ n" by (simp add: qq)
    also have "\<dots> = of_int (k * 2 ^ n)" by (simp add: a_def)
    finally have "a / quantum a = of_int (k * 2 ^ n)" .
    then have "round_half_even (a / quantum a) = k * 2 ^ n" by (simp only: rhe_of_int)
    then have "nearest a = of_int k" by (simp add: nearest_def qq)
    then show ?thesis unfolding a_def by blast
  qed
qed

lemma fl_of_int_cases:
  "fl (of_int k) = PInf \<or> fl (of_int k) = NInf \<or> (\<exists>j. fl (of_int k) = Fin (of_int j))"
proof -
  consider "k = 0" | "1 \<le> k" | "1 \<le> - k" by linarith
  then show ?thesis
  proof cases
    case 1
    then have "fl (of_int k) = Fin (of_int 0)" by (simp add: fl_def)
    then show ?thesis by blast
  next
    case 2
    from nearest_of_int [OF 2] obtain j where "nearest (of_int k) = of_int j" ..
    with 2 show ?thesis by (auto simp: fl_def)
  next
    case 3
    from nearest_of_int [OF 3] obtain j where j: "nearest (of_int (- k)) = of_int j" ..
    then have "- nearest (- of_int k) = of_int (- j)" by simp
    then have "\<exists>i. - nearest (- of_int k) = of_int i" ..
    with 3 show ?thesis by (simp add: fl_def)
  qed
qed

lemma binade_less: "0 < x \<Longrightarrow> x < pow2 k \<Longrightarrow> binade x < k"
proof -
  assume "0 < x" "x < pow2 k"
  then have "pow2 (binade x) < pow2 k" using binade_bounds(1) [of x] by simp
  then show ?thesis by (rule pow2_less_cancel)
qed

lemma nearest_small_int:
  assumes "1 \<le> k" and "k < 2 ^ 53"
  shows "nearest (of_int k) = of_int k"
proof -
  define a :: rat where "a = of_int k"
  have a1: "1 \<le> a" using assms(1) by (simp add: a_def)
  then have apos: "0 < a" by simp
  have "(of_int k :: rat) < of_int (2 ^ 53)" using assms(2) by (simp only: of_int_less_iff)
  then have "a < pow2 53" by (simp add: a_def pow2_def)
  then have e53: "binade a < 53" by (rule binade_less [OF apos])
  have e0: "0 \<le> binade a" using binade_ge [OF apos, of 0] a1 by simp
  then have q: "quantum a = pow2 (binade a - 52)" by (simp add: quantum_def max_def)
  from e53 obtain n where n: "binade a - 52 = - int n"
    using nonpos_int_cases [of "binade a - 52"] by auto
  have qq: "quantum a = 1 / 2 ^ n" by (simp add: q n pow2_neg)
  have "a / quantum a = a * 2 ^ n" by (simp add: qq)
  also have "\<dots> = of_int (k * 2 ^ n)" by (simp add: a_def)
  finally have "a / quantum a = of_int (k * 2 ^ n)" .
  then have "round_half_even (a / quantum a) = k * 2 ^ n" by (simp only: rhe_of_int)
  then have "nearest a = of_int k" by (simp add: nearest_def qq)
  then show ?thesis by (simp add: a_def)
qed

lemma fl_exact_int:
  assumes "\<bar>k\<bar> < 2 ^ 53"
  shows "fl (of_int k) = Fin (of_int k)"
proof -
  have big: "(of_int j :: rat) < pow2 1024" if "j < 2 ^ 53" for j :: int
  proof -
    have "(of_int j :: rat) < of_int (2 ^ 53)" using that by (simp only: of_int_less_iff)
    also have "\<dots> = pow2 53" by (simp add: pow2_def)
    also have "\<dots> \<le> pow2 1024" by (rule pow2_mono) simp
    finally show ?thesis .
  qed
  consider "k = 0" | "1 \<le> k" | "1 \<le> - k" by linarith
  then show ?thesis
  proof cases
    case 1
    then show ?thesis by (simp add: fl_def)
  next
    case 2
    with assms have lt: "k < 2 ^ 53" by simp
    have "nearest (of_int k) = of_int k" by (rule nearest_small_int [OF 2 lt])
    with 2 big [OF lt] show ?thesis by (simp add: fl_def)
  next
    case 3
    with assms have lt: "- k < 2 ^ 53" by simp
    have "nearest (of_int (- k)) = of_int (- k)" by (rule nearest_small_int [OF 3 lt])
    then have n: "nearest (- of_int k) = - of_int k" by simp
    have "(of_int (- k) :: rat) < pow2 1024" by (rule big [OF lt])
    with 3 n show ?thesis by (simp add: fl_def)
  qed
qed

lemma fl_numeral: "(numeral w :: int) < 2 ^ 53 \<Longrightarrow> fl (numeral w) = Fin (numeral w)"
  using fl_exact_int [of "numeral w"] by simp

lemma fl_neg_numeral:
  "(numeral w :: int) < 2 ^ 53 \<Longrightarrow> fl (- numeral w) = Fin (- numeral w)"
  using fl_exact_int [of "- numeral w"] by simp

lemma fl_0 [simp]: "fl 0 = Fin 0"
  by (simp add: fl_def)

lemma fl_1 [simp]: "fl 1 = Fin 1"
  using fl_exact_int [of 1] by simp

section \<open>Facts about sorting and slicing\<close>

lemma length_insort_cmp [simp]: "length (insort_cmp cmp x ys) = Suc (length ys)"
  by (induction ys) simp_all

lemma length_js_sort [simp]: "length (js_sort cmp xs) = length xs"
  by (induction xs) (simp_all add: js_sort_def)

lemma set_insort_cmp [simp]: "set (insort_cmp cmp x ys) = insert x (set ys)"
  by (induction ys) auto

lemma set_js_sort [simp]: "set (js_sort cmp xs) = set xs"
  by (induction xs) (simp_all add: js_sort_def)

lemma sum_insort_cmp [simp]:
  "sum_list (map f (insort_cmp cmp x ys)) = f x + sum_list (map f ys)"
  for f :: "'a \<Rightarrow> 'b::comm_monoid_add"
  by (induction ys) (simp_all add: add.left_commute)

lemma sum_js_sort [simp]: "sum_list (map f (js_sort cmp xs)) = sum_list (map f xs)"
  for f :: "'a \<Rightarrow> 'b::comm_monoid_add"
  by (induction xs) (simp_all add: js_sort_def)

lemma by_count_desc_gt: "js_gt (by_count_desc cnt a b) (Fin 0) \<longleftrightarrow> cnt a < cnt b"
proof -
  have "by_count_desc cnt a b = fl (of_int (int (cnt b) - int (cnt a)))"
    by (simp add: by_count_desc_def fsub_def num_def)
  then show ?thesis by (simp only: fl_of_int_gt0) simp
qed

lemma sorted_insort_count:
  "sorted_wrt (\<lambda>a b. cnt b \<le> cnt a) ys
   \<Longrightarrow> sorted_wrt (\<lambda>a b. cnt b \<le> cnt a) (insort_cmp (by_count_desc cnt) x ys)"
  for cnt :: "'a \<Rightarrow> nat"
proof (induction ys)
  case Nil
  then show ?case by simp
next
  case (Cons y ys)
  show ?case
  proof (cases "cnt x < cnt y")
    case True
    with Cons show ?thesis by (auto simp: by_count_desc_gt)
  next
    case False
    with Cons.prems show ?thesis by (auto simp: by_count_desc_gt)
  qed
qed

lemma sorted_js_sort_count:
  "sorted_wrt (\<lambda>a b. cnt b \<le> cnt a) (js_sort (by_count_desc cnt) xs)"
  for cnt :: "'a \<Rightarrow> nat"
proof (induction xs)
  case Nil
  then show ?case by (simp add: js_sort_def)
next
  case (Cons x xs)
  then show ?case using sorted_insort_count [of cnt "js_sort (by_count_desc cnt) xs" x]
    by (simp add: js_sort_def)
qed

lemma slice0_take: "\<exists>n. slice0 xs e = take n xs"
proof (cases "ToIntegerOrInfinity e")
  case (Fin a)
  then show ?thesis by (auto simp: slice0_def)
next
  case NaN
  then have "slice0 xs e = take 0 xs" by (simp add: slice0_def)
  then show ?thesis ..
next
  case PInf
  then have "slice0 xs e = take (length xs) xs" by (simp add: slice0_def)
  then show ?thesis ..
next
  case NInf
  then have "slice0 xs e = take 0 xs" by (simp add: slice0_def)
  then show ?thesis ..
qed

lemma set_slice0: "set (slice0 xs e) \<subseteq> set xs"
  using slice0_take [of xs e] by (auto dest: in_set_takeD)

lemma sorted_wrt_slice0: "sorted_wrt P xs \<Longrightarrow> sorted_wrt P (slice0 xs e)"
  using slice0_take [of xs e] by (auto intro: sorted_wrt_take)

lemma slice0_PInf [simp]: "slice0 xs PInf = xs"
  by (simp add: slice0_def ToIntegerOrInfinity_def)

lemma length_slice0:
  assumes "js_ge n (Fin 0)"
  shows "js_le (num (length (slice0 xs n))) n"
proof (cases n)
  case (Fin q)
  with assms have q: "0 \<le> q" by simp
  then have f: "0 \<le> \<lfloor>q\<rfloor>" by simp
  have "slice0 xs n = take (min (nat \<lfloor>q\<rfloor>) (length xs)) xs"
    using q f by (simp add: slice0_def ToIntegerOrInfinity_def Fin)
  then have "length (slice0 xs n) \<le> nat \<lfloor>q\<rfloor>" by simp
  then have "int (length (slice0 xs n)) \<le> \<lfloor>q\<rfloor>" using f by linarith
  then have "(of_int (int (length (slice0 xs n))) :: rat) \<le> of_int \<lfloor>q\<rfloor>"
    by (simp only: of_int_le_iff)
  also have "\<dots> \<le> q" by simp
  finally show ?thesis by (simp add: js_le_def num_def Fin)
next
  case NaN
  with assms show ?thesis by simp
next
  case PInf
  then show ?thesis by (simp add: js_le_def num_def)
next
  case NInf
  with assms show ?thesis by simp
qed

lemma length_slice0_nat: "length (slice0 xs (Fin (of_nat k))) \<le> k"
proof -
  have "js_le (num (length (slice0 xs (Fin (of_nat k))))) (Fin (of_nat k))"
    by (rule length_slice0) simp
  then show ?thesis by (simp add: js_le_def num_def)
qed

section \<open>Facts about loading\<close>

lemma loadData_Readable:
  "loadData (Readable rows) eng =
     (Inr (map parseRow (drop 1 rows)), eng\<lparr>rawData := map parseRow (drop 1 rows)\<rparr>)"
proof -
  have "List.map_filter try_parseRow xs = map parseRow xs" for xs
    by (induction xs) (simp_all add: List.map_filter_simps try_parseRow_def)
  then show ?thesis by (simp add: loadData_def Let_def)
qed

lemma rawData_ex_engine:
  "rawData ex_engine = [parseRow ex_row1, parseRow ex_row2, parseRow ex_row3]"
  by (simp add: ex_engine_def loadData_Readable)

lemmas parse_simps = parseRow_def js_index_def or_empty_def or_zero_def truthy_num_def
  parseInt_def ToString_def is_white_def digit_val_def digits_val_def fl_numeral

lemma parseInt_trimmed:
  "dropWhile is_white s = S \<Longrightarrow>
   parseInt (Some s) =
     (let neg = (S \<noteq> [] \<and> hd S = CHR ''-'');
          S1 = (if S \<noteq> [] \<and> (hd S = CHR ''+'' \<or> hd S = CHR ''-'') then tl S else S);
          hex = (take 2 S1 = ''0x'' \<or> take 2 S1 = ''0X'');
          R = (if hex then 16 else 10);
          S2 = (if hex then drop 2 S1 else S1);
          Z = takeWhile (\<lambda>c. digit_val R c \<noteq> None) S2
      in if Z = [] then NaN
         else fl (of_int (if neg then - digits_val R Z else digits_val R Z)))"
  by (auto simp: parseInt_def ToString_def)

lemma no_leading_digit_parseInt:
  assumes "no_leading_digit s"
  shows "parseInt (Some s) = NaN"
proof (cases "dropWhile is_white s")
  case Nil
  show ?thesis by (simp add: parseInt_trimmed [OF Nil])
next
  case (Cons c cs)
  note S = Cons
  show ?thesis
  proof (cases "c = CHR ''+'' \<or> c = CHR ''-''")
    case sign: True
    show ?thesis
    proof (cases cs)
      case Nil
      with sign show ?thesis by (auto simp: parseInt_trimmed [OF S])
    next
      case (Cons d ds)
      with assms S sign have d: "digit_val 10 d = None"
        by (simp add: no_leading_digit_def)
      then have "d \<noteq> CHR ''0''" by (auto simp: digit_val_def)
      with d Cons sign show ?thesis
        by (auto simp: parseInt_trimmed [OF S])
    qed
  next
    case False
    with assms S have d: "digit_val 10 c = None" by (simp add: no_leading_digit_def)
    then have "c \<noteq> CHR ''0''" by (auto simp: digit_val_def)
    with d False show ?thesis by (auto simp: parseInt_trimmed [OF S])
  qed
qed

lemma year_step_skip: "\<not> js_gt (modelYear r) (Fin 0) \<Longrightarrow> year_step m r = m"
  by (simp add: year_step_def)

lemma getYearlyTrends_skip:
  assumes "\<not> js_gt (modelYear r) (Fin 0)"
  shows "getYearlyTrends \<lparr>rawData = pre @ r # post\<rparr> = getYearlyTrends \<lparr>rawData = pre @ post\<rparr>"
  using assms by (simp add: getYearlyTrends_def year_step_skip)

lemma snd_loadData_Readable:
  "snd (loadData (Readable rows) eng) = \<lparr>rawData = map parseRow (drop 1 rows)\<rparr>"
  by (simp add: loadData_Readable)

section \<open>Facts about grouping by model\<close>

lemma split_on_append:
  "c \<notin> set a \<Longrightarrow> split_on c (a @ c # b) = a # split_on c b"
  by (induction a) auto

lemma split_on_no_sep: "c \<notin> set s \<Longrightarrow> split_on c s = [s]"
  by (induction s) auto

lemma split_on_first:
  "\<exists>ps. split_on c s = takeWhile (\<lambda>x. x \<noteq> c) s # ps"
  by (induction s) (auto split: list.splits)

lemma split_on_sep:
  assumes "c \<in> set s"
  shows "split_on c s
         = takeWhile (\<lambda>x. x \<noteq> c) s # split_on c (tl (dropWhile (\<lambda>x. x \<noteq> c) s))"
proof -
  define a where "a = takeWhile (\<lambda>x. x \<noteq> c) s"
  define d where "d = dropWhile (\<lambda>x. x \<noteq> c) s"
  have s: "s = a @ d" by (simp add: a_def d_def)
  have dne: "d \<noteq> []" using assms by (auto simp: d_def)
  have "hd d = c" using hd_dropWhile [of "\<lambda>x. x \<noteq> c" s] dne by (auto simp: d_def)
  with dne have d: "d = c # tl d" by (cases d) auto
  have na: "c \<notin> set a" by (auto simp: a_def dest: set_takeWhileD)
  have "split_on c (a @ c # tl d) = a # split_on c (tl d)" by (rule split_on_append [OF na])
  with s d show ?thesis by (simp add: a_def d_def)
qed

lemma split_index_0:
  "js_index (split_on c s) 0 = Some (takeWhile (\<lambda>x. x \<noteq> c) s)"
  using split_on_first [of c s] by (auto simp: js_index_def)

lemma split_index_1:
  assumes "c \<in> set s"
  shows "js_index (split_on c s) 1
         = Some (takeWhile (\<lambda>x. x \<noteq> c) (tl (dropWhile (\<lambda>x. x \<noteq> c) s)))"
proof -
  obtain ps where "split_on c (tl (dropWhile (\<lambda>x. x \<noteq> c) s))
      = takeWhile (\<lambda>x. x \<noteq> c) (tl (dropWhile (\<lambda>x. x \<noteq> c) s)) # ps"
    using split_on_first by blast
  then show ?thesis by (simp add: split_on_sep [OF assms] js_index_def)
qed

lemma pipe_in_model_key: "CHR ''|'' \<in> set (model_key r)"
  by (simp add: model_key_def)

lemma model_key_takeWhile:
  "CHR ''|'' \<notin> set (make' r) \<Longrightarrow> takeWhile (\<lambda>x. x \<noteq> CHR ''|'') (model_key r) = make' r"
proof -
  assume "CHR ''|'' \<notin> set (make' r)"
  then have "\<And>x. x \<in> set (make' r) \<Longrightarrow> x \<noteq> CHR ''|''" by auto
  then show ?thesis by (simp add: model_key_def takeWhile_append2)
qed

lemma model_key_dropWhile:
  "CHR ''|'' \<notin> set (make' r)
   \<Longrightarrow> tl (dropWhile (\<lambda>x. x \<noteq> CHR ''|'') (model_key r)) = model r"
proof -
  assume "CHR ''|'' \<notin> set (make' r)"
  then have "\<And>x. x \<in> set (make' r) \<Longrightarrow> x \<noteq> CHR ''|''" by auto
  then show ?thesis by (simp add: model_key_def dropWhile_append2)
qed

lemma model_key_inj:
  assumes "CHR ''|'' \<notin> set (make' r)" and "CHR ''|'' \<notin> set (make' r')"
  shows "model_key r = model_key r' \<longleftrightarrow> make' r = make' r' \<and> model r = model r'"
proof
  assume eq: "model_key r = model_key r'"
  from eq model_key_takeWhile [OF assms(1)] model_key_takeWhile [OF assms(2)]
  have "make' r = make' r'" by simp
  moreover from eq model_key_dropWhile [OF assms(1)] model_key_dropWhile [OF assms(2)]
  have "model r = model r'" by simp
  ultimately show "make' r = make' r' \<and> model r = model r'" ..
next
  assume "make' r = make' r' \<and> model r = model r'"
  then show "model_key r = model_key r'" by (simp add: model_key_def)
qed

lemma model_step_update:
  "\<exists>v. fst v = (case map_of m (model_key r) of None \<Rightarrow> 0 | Some e \<Rightarrow> fst e) + 1
       \<and> model_step m r
           = (if make' r \<noteq> [] \<and> model r \<noteq> [] then AList.update (model_key r) v m else m)"
proof -
  obtain cnt tr rc ty yc where e:
    "(case map_of m (model_key r) of None \<Rightarrow> (0, Fin 0, 0, Fin 0, 0) | Some e \<Rightarrow> e)
     = (cnt, tr, rc, ty, yc)"
    by (metis prod_cases5)
  then have c: "(case map_of m (model_key r) of None \<Rightarrow> 0 | Some e \<Rightarrow> fst e) = cnt"
    by (auto split: option.splits)
  show ?thesis unfolding model_step_def e c
    by (rule exI [where x = "(cnt + 1,
          if js_gt (electricRange r) (Fin 0) then fadd tr (electricRange r) else tr,
          if js_gt (electricRange r) (Fin 0) then rc + 1 else rc,
          if js_gt (modelYear r) (Fin 0) then fadd ty (modelYear r) else ty,
          if js_gt (modelYear r) (Fin 0) then yc + 1 else yc)"]) simp
qed

lemma model_step_count:
  "(case map_of (model_step m r) k of None \<Rightarrow> 0 | Some e \<Rightarrow> fst e)
   = (case map_of m k of None \<Rightarrow> 0 | Some e \<Rightarrow> fst e)
     + (if make' r \<noteq> [] \<and> model r \<noteq> [] \<and> model_key r = k then 1 else 0)"
proof -
  from model_step_update [of m r] obtain v where
    v: "fst v = (case map_of m (model_key r) of None \<Rightarrow> 0 | Some e \<Rightarrow> fst e) + 1"
    and st: "model_step m r
           = (if make' r \<noteq> [] \<and> model r \<noteq> [] then AList.update (model_key r) v m else m)"
    by blast
  show ?thesis unfolding st using v by (simp add: update_conv')
qed

lemma foldl_model_count:
  "(case map_of (foldl model_step m rs) k of None \<Rightarrow> 0 | Some e \<Rightarrow> fst e)
   = (case map_of m k of None \<Rightarrow> 0 | Some e \<Rightarrow> fst e)
     + length (filter (\<lambda>r. make' r \<noteq> [] \<and> model r \<noteq> [] \<and> model_key r = k) rs)"
proof (induction rs arbitrary: m)
  case Nil
  show ?case by simp
next
  case (Cons r rs)
  show ?case unfolding foldl_Cons Cons.IH model_step_count by simp
qed

lemma model_step_keys:
  "fst ` set (model_step m r)
   = fst ` set m \<union> (if make' r \<noteq> [] \<and> model r \<noteq> [] then {model_key r} else {})"
proof -
  from model_step_update [of m r] obtain v where
    st: "model_step m r
           = (if make' r \<noteq> [] \<and> model r \<noteq> [] then AList.update (model_key r) v m else m)"
    by blast
  show ?thesis unfolding st by (simp add: dom_update)
qed

lemma foldl_model_keys:
  "fst ` set (foldl model_step m rs)
   = fst ` set m \<union> model_key ` {r \<in> set rs. make' r \<noteq> [] \<and> model r \<noteq> []}"
proof (induction rs arbitrary: m)
  case Nil
  show ?case by simp
next
  case (Cons r rs)
  show ?case unfolding foldl_Cons Cons.IH model_step_keys by auto
qed

lemma model_step_distinct:
  assumes "distinct (map fst m)"
  shows "distinct (map fst (model_step m r))"
proof -
  from model_step_update [of m r] obtain v where
    st: "model_step m r
           = (if make' r \<noteq> [] \<and> model r \<noteq> [] then AList.update (model_key r) v m else m)"
    by blast
  show ?thesis unfolding st using assms by (simp add: distinct_update)
qed

lemma foldl_model_distinct:
  "distinct (map fst m) \<Longrightarrow> distinct (map fst (foldl model_step m rs))"
  by (induction rs arbitrary: m) (simp_all add: model_step_distinct)


lemma getTopModels_subset:
  "set (getTopModels limit eng) \<subseteq> model_entry ` set (foldl model_step [] (rawData eng))"
  using set_slice0 by (fastforce simp: getTopModels_def Let_def)

lemma getTopModels_all:
  "set (getTopModels (Some PInf) eng) = model_entry ` set (foldl model_step [] (rawData eng))"
  by (simp add: getTopModels_def Let_def)

lemma modelMap_entry:
  assumes "(k, acc) \<in> set (foldl model_step [] rs)"
  shows "\<exists>r\<in>set rs. make' r \<noteq> [] \<and> model r \<noteq> [] \<and> k = model_key r
           \<and> fst acc = length (filter (\<lambda>r'. make' r' \<noteq> [] \<and> model r' \<noteq> []
                                            \<and> model_key r' = model_key r) rs)"
proof -
  have d: "distinct (map fst (foldl model_step [] rs))"
    by (rule foldl_model_distinct) simp
  with assms have m: "map_of (foldl model_step [] rs) k = Some acc" by simp
  from assms have "k \<in> fst ` set (foldl model_step [] rs)" by force
  then obtain r where r: "r \<in> set rs" "make' r \<noteq> []" "model r \<noteq> []" "k = model_key r"
    unfolding foldl_model_keys by auto
  from foldl_model_count [of "[]" rs k] m
  have "fst acc = length (filter (\<lambda>r'. make' r' \<noteq> [] \<and> model r' \<noteq> [] \<and> model_key r' = k) rs)"
    by simp
  with r show ?thesis by blast
qed

lemma modelMap_has_key:
  assumes "r \<in> set rs" and "make' r \<noteq> []" and "model r \<noteq> []"
  shows "\<exists>acc. (model_key r, acc) \<in> set (foldl model_step [] rs)"
proof -
  have "model_key r \<in> fst ` set (foldl model_step [] rs)"
    unfolding foldl_model_keys using assms by auto
  then show ?thesis by force
qed

lemma model_entry_fields:
  "mo_count (model_entry (k, acc)) = fst acc"
  "mo_make (model_entry (k, acc)) = js_index (split_on CHR ''|'' k) 0"
  "mo_model (model_entry (k, acc)) = js_index (split_on CHR ''|'' k) 1"
  by (cases acc rule: prod_cases5; simp add: model_entry_def)+

lemma length_getTopModels_all:
  "length (getTopModels (Some PInf) eng)
   = card (model_key ` {r \<in> set (rawData eng). make' r \<noteq> [] \<and> model r \<noteq> []})"
proof -
  have d: "distinct (map fst (foldl model_step [] (rawData eng)))"
    by (rule foldl_model_distinct) simp
  have "length (getTopModels (Some PInf) eng) = length (map fst (foldl model_step [] (rawData eng)))"
    by (simp add: getTopModels_def Let_def)
  also have "\<dots> = card (set (map fst (foldl model_step [] (rawData eng))))"
    using d by (simp only: distinct_card)
  also have "set (map fst (foldl model_step [] (rawData eng)))
      = model_key ` {r \<in> set (rawData eng). make' r \<noteq> [] \<and> model r \<noteq> []}"
    using foldl_model_keys [of "[]" "rawData eng"] by simp
  finally show ?thesis .
qed

lemma card_keys_pairs:
  assumes "\<forall>r\<in>Q. CHR ''|'' \<notin> set (make' r)"
  shows "card (model_key ` Q) = card ((\<lambda>r. (make' r, model r)) ` Q)"
proof -
  define g :: "string \<times> string \<Rightarrow> string" where "g = (\<lambda>(a, m). a @ ''|'' @ m)"
  have mk: "model_key ` Q = g ` ((\<lambda>r. (make' r, model r)) ` Q)"
    by (auto simp: g_def model_key_def image_image)
  have "inj_on g ((\<lambda>r. (make' r, model r)) ` Q)"
  proof (rule inj_onI)
    fix p q
    assume p: "p \<in> (\<lambda>r. (make' r, model r)) ` Q" and q: "q \<in> (\<lambda>r. (make' r, model r)) ` Q"
      and eq: "g p = g q"
    from p obtain r where r: "r \<in> Q" "p = (make' r, model r)" by auto
    from q obtain r' where r': "r' \<in> Q" "q = (make' r', model r')" by auto
    from eq r r' have "model_key r = model_key r'" by (simp add: g_def model_key_def)
    with assms r r' show "p = q" using model_key_inj [of r r'] by simp
  qed
  then show ?thesis unfolding mk by (rule card_image)
qed

lemma ex_pipe_top:
  "map (\<lambda>e. (mo_make e, mo_model e, mo_count e)) (getTopModels None ex_pipe_engine)
     = [(Some ''A'', Some ''B'', 2)]"
  by (simp add: ex_pipe_engine_def loadData_Readable ex_row2_def parse_simps
      getTopModels_def model_step_def model_key_def model_entry_def js_sort_def
      slice0_def ToIntegerOrInfinity_def)

lemma ex_pipe_pairs:
  "map (\<lambda>r. (make' r, model r)) (rawData ex_pipe_engine) = [(''A|B'', ''C''), (''A'', ''B|C'')]"
  by (simp add: ex_pipe_engine_def loadData_Readable ex_row2_def parseRow_def js_index_def
       or_empty_def)

lemma ex_make_names:
  "map make' (rawData ex_engine) = [''TESLA'', ''TOYOTA'', ''TESLA'']"
  by (simp add: rawData_ex_engine ex_row1_def ex_row2_def ex_row3_def parseRow_def js_index_def
       or_empty_def)

lemma ex_top:
  "map (\<lambda>e. (mo_make e, mo_model e, mo_count e)) (getTopModels None ex_engine)
     = [(Some ''TESLA'', Some ''MODEL 3'', 1), (Some ''TOYOTA'', Some ''PRIUS'', 1),
        (Some ''TESLA'', Some ''MODEL S'', 1)]"
  by (simp add: ex_engine_def loadData_Readable ex_row1_def ex_row2_def ex_row3_def parse_simps
      getTopModels_def model_step_def model_key_def model_entry_def js_sort_def
      slice0_def ToIntegerOrInfinity_def by_count_desc_gt)

section \<open>Facts about the range buckets\<close>

lemma parseInt_cases:
  "parseInt a = NaN \<or> parseInt a = PInf \<or> parseInt a = NInf
   \<or> (\<exists>k. parseInt a = Fin (of_int k))"
proof -
  have "\<exists>Z k. parseInt a = (if Z = ([] :: string) then NaN else fl (of_int k))"
    unfolding parseInt_def Let_def by (intro exI) (rule refl)
  then obtain Z :: string and k where "parseInt a = (if Z = [] then NaN else fl (of_int k))"
    by blast
  then have "parseInt a = NaN \<or> parseInt a = fl (of_int k)" by (cases "Z = []") simp_all
  then show ?thesis using fl_of_int_cases [of k] by auto
qed

lemma or_zero_parseInt_cases:
  "or_zero (parseInt a) = PInf \<or> or_zero (parseInt a) = NInf
   \<or> (\<exists>k. or_zero (parseInt a) = Fin (of_int k))"
proof -
  have z: "\<exists>k. Fin 0 = Fin (of_int k)" by (rule exI [where x = 0]) simp
  from parseInt_cases [of a] show ?thesis
    by (elim disjE exE) (auto simp: or_zero_def truthy_num_def z)
qed

lemma one_bucket:
  assumes "js_gt x (Fin 0)" and "x = PInf \<or> x = NInf \<or> (\<exists>k. x = Fin (of_int k))"
  shows "(\<Sum>b\<leftarrow>ranges. if js_ge x (fst b) \<and> js_le x (fst (snd b)) then 1 else 0) = (1::nat)"
proof -
  from assms consider "x = PInf" | k where "x = Fin (of_int k)" "0 < k" by auto
  then show ?thesis
  proof cases
    case 1
    then show ?thesis by (simp add: ranges_def js_le_def)
  next
    case 2
    then show ?thesis by (simp add: ranges_def js_le_def)
  qed
qed

lemma bucket_counts_sum:
  assumes "\<forall>x\<in>set xs. (\<Sum>b\<leftarrow>bs. if P b x then 1 else 0) = (1::nat)"
  shows "(\<Sum>b\<leftarrow>bs. length (filter (P b) xs)) = length xs"
  using assms
proof (induction xs)
  case Nil
  show ?case by simp
next
  case (Cons x xs)
  have "(\<Sum>b\<leftarrow>bs. length (filter (P b) (x # xs)))
      = (\<Sum>b\<leftarrow>bs. (if P b x then 1 else 0) + length (filter (P b) xs))"
    by (rule arg_cong [where f = sum_list]) simp
  also have "\<dots> = (\<Sum>b\<leftarrow>bs. if P b x then 1 else 0) + (\<Sum>b\<leftarrow>bs. length (filter (P b) xs))"
    by (simp add: sum_list_addf)
  finally show ?case using Cons by simp
qed

lemma sum_filter_pos:
  "sum_list (map f (filter (\<lambda>r. 0 < f r) bs)) = sum_list (map f bs)" for f :: "'a \<Rightarrow> nat"
  by (induction bs) simp_all

lemma loaded_range_cases:
  assumes "v \<in> set (rawData (snd (loadData (Readable rows) eng0)))"
  shows "electricRange v = PInf \<or> electricRange v = NInf \<or> (\<exists>k. electricRange v = Fin (of_int k))"
proof -
  from assms obtain row where "v = parseRow row" by (auto simp: loadData_Readable)
  then show ?thesis using or_zero_parseInt_cases [of "js_index row 10"] by (simp add: parseRow_def)
qed

lemma getRangeDistribution_unfold:
  "getRangeDistribution eng =
     filter (\<lambda>r. 0 < rd_count r)
       (map (\<lambda>b. \<lparr>rd_rangeGroup = snd (snd b),
                   rd_count = length (filter (\<lambda>v. js_ge (electricRange v) (fst b)
                                 \<and> js_le (electricRange v) (fst (snd b)))
                                (filter (\<lambda>v. js_gt (electricRange v) (Fin 0)) (rawData eng))),
                   rd_percentage = percent2
                     (length (filter (\<lambda>v. js_ge (electricRange v) (fst b)
                                 \<and> js_le (electricRange v) (fst (snd b)))
                                (filter (\<lambda>v. js_gt (electricRange v) (Fin 0)) (rawData eng))))
                     (length (filter (\<lambda>v. js_gt (electricRange v) (Fin 0)) (rawData eng)))\<rparr>)
          ranges)"
  by (simp add: getRangeDistribution_def Let_def case_prod_unfold)

lemma ex_ranges:
  "map (\<lambda>b. (rd_rangeGroup b, rd_count b)) (getRangeDistribution ex_engine)
     = [(''151-200 miles'', 1), (''251-300 miles'', 1)]"
  by (simp add: getRangeDistribution_unfold rawData_ex_engine ex_row1_def ex_row2_def ex_row3_def
       parse_simps ranges_def js_le_def filter_map comp_def)

section \<open>Facts about percentages\<close>

lemma fl_mid':
  assumes "1 / 2 ^ 40 \<le> x" and "x \<le> 2 ^ 20"
  shows "\<exists>r. fl x = Fin r \<and> \<bar>r - x\<bar> \<le> x / 2 ^ 53"
proof (rule fl_normal)
  have "pow2 (- 1022) \<le> pow2 (- 40)" by (rule pow2_mono) simp
  also have "pow2 (- 40) = 1 / 2 ^ 40" using pow2_neg [of 40] by simp
  finally show "pow2 (- 1022) \<le> x" using assms(1) by simp
  have "pow2 20 < pow2 1023" by (rule pow2_strict_mono) simp
  moreover have "pow2 20 = 2 ^ 20" using pow2_nat [of 20] by simp
  ultimately show "x < pow2 1023" using assms(2) by simp
qed

lemma fl_mid:
  assumes "1 / 1099511627776 \<le> x" and "x \<le> 1048576"
  shows "\<exists>r. fl x = Fin r \<and> \<bar>r - x\<bar> \<le> x / 9007199254740992"
  using fl_mid' [of x] assms by simp

lemma percent2_bound:
  assumes c1: "1 \<le> c" and cT: "c \<le> T" and T: "T < 2 ^ 32"
  shows "\<exists>p. percent2 c T = Fin p
           \<and> \<bar>p - 100 * of_nat c / of_nat T\<bar> \<le> 1 / 200 + 502 / 9007199254740992"
proof -
  define x1 :: rat where "x1 = of_nat c / of_nat T"
  have Tpos: "0 < T" using c1 cT by simp
  have Tr: "(0::rat) < of_nat T" using Tpos by simp
  have x1_le: "x1 \<le> 1" using cT Tr by (simp add: x1_def)
  have "(of_nat T :: rat) < of_nat (2 ^ 32)" using T by (simp only: of_nat_less_iff)
  then have T32: "(of_nat T :: rat) < 2 ^ 32" by simp
  have "1 / of_nat T \<le> x1" using c1 Tr by (simp add: x1_def divide_right_mono)
  moreover have "(1::rat) / 4294967296 < 1 / of_nat T" using T32 Tr by (simp add: field_simps)
  ultimately have x1_ge: "1 / 4294967296 \<le> x1" by simp
  have "\<exists>r. fl x1 = Fin r \<and> \<bar>r - x1\<bar> \<le> x1 / 9007199254740992"
    using x1_ge x1_le by (intro fl_mid) simp_all
  then obtain r1 where r1: "fl x1 = Fin r1" and e1: "\<bar>r1 - x1\<bar> \<le> x1 / 9007199254740992" by blast
  have r1_lo: "1 / 8589934592 \<le> r1" using e1 x1_ge by linarith
  have r1_hi: "r1 \<le> 2" using e1 x1_le by linarith
  have d1: "\<bar>r1 - x1\<bar> \<le> 1 / 9007199254740992" using e1 x1_le by linarith
  have "\<exists>r. fl (r1 * 100) = Fin r \<and> \<bar>r - r1 * 100\<bar> \<le> (r1 * 100) / 9007199254740992"
    using r1_lo r1_hi by (intro fl_mid) simp_all
  then obtain r2 where r2: "fl (r1 * 100) = Fin r2"
    and e2: "\<bar>r2 - r1 * 100\<bar> \<le> (r1 * 100) / 9007199254740992" by blast
  have d2: "\<bar>r2 - 100 * x1\<bar> \<le> 300 / 9007199254740992" using e2 d1 r1_hi by linarith
  have r2_lo: "1 / 8589934592 \<le> r2" using e2 r1_lo by linarith
  have r2_hi: "r2 \<le> 101" using d2 x1_le by linarith
  have "\<exists>r. fl (r2 * 100) = Fin r \<and> \<bar>r - r2 * 100\<bar> \<le> (r2 * 100) / 9007199254740992"
    using r2_lo r2_hi by (intro fl_mid) simp_all
  then obtain r3 where r3: "fl (r2 * 100) = Fin r3"
    and e3: "\<bar>r3 - r2 * 100\<bar> \<le> (r2 * 100) / 9007199254740992" by blast
  have d3: "\<bar>r3 - 10000 * x1\<bar> \<le> 40100 / 9007199254740992" using e3 d2 r2_hi by linarith
  have r3_lo: "0 \<le> r3" using e3 r2_lo by linarith
  have r3_hi: "r3 \<le> 10001" using d3 x1_le by linarith
  define k where "k = \<lfloor>r3 + 1 / 2\<rfloor>"
  have k_lo: "of_int k \<le> r3 + 1 / 2" and k_hi: "r3 + 1 / 2 < of_int k + 1"
    using floor_correct [of "r3 + 1 / 2"] by (simp_all add: k_def)
  have dk: "\<bar>of_int k - r3\<bar> \<le> 1 / 2" using k_lo k_hi by linarith
  have "(0::rat) < of_int k + 1" using k_hi r3_lo by linarith
  then have "(of_int (0::int) :: rat) < of_int (k + 1)" by simp
  then have "0 < k + 1" by (simp only: of_int_less_iff)
  then have k0: "0 \<le> k" by simp
  have "(of_int k :: rat) \<le> 10002" using k_lo r3_hi by linarith
  then have kr_hi: "(of_int k :: rat) / 100 \<le> 1048576" by simp
  have chain: "percent2 c T = fl (of_int k / 100)"
    using Tpos by (simp add: percent2_def num_def x1_def [symmetric] r1 r2 r3 k_def)
  have "\<exists>p. fl (of_int k / 100) = Fin p \<and> \<bar>p - of_int k / 100\<bar> \<le> 10002 / 100 / 9007199254740992"
  proof (cases "k = 0")
    case True
    then show ?thesis by (simp add: fl_def)
  next
    case False
    with k0 have "1 \<le> k" by simp
    then have "(of_int (1::int) :: rat) \<le> of_int k" by (simp only: of_int_le_iff)
    then have k1: "(1::rat) \<le> of_int k" by simp
    then have "(1::rat) / 1099511627776 \<le> of_int k / 100" by simp
    from fl_mid [OF this kr_hi] obtain p where p: "fl (of_int k / 100) = Fin p"
      and ep: "\<bar>p - of_int k / 100\<bar> \<le> of_int k / 100 / 9007199254740992" by blast
    have "(of_int k :: rat) / 100 / 9007199254740992 \<le> 10002 / 100 / 9007199254740992"
      using \<open>(of_int k :: rat) \<le> 10002\<close> by (simp add: divide_right_mono)
    with p ep show ?thesis by (intro exI [where x = p]) linarith
  qed
  then obtain p where p: "fl (of_int k / 100) = Fin p"
    and ep: "\<bar>p - of_int k / 100\<bar> \<le> 10002 / 100 / 9007199254740992" by blast
  have "\<bar>p - 100 * x1\<bar> \<le> 1 / 200 + 502 / 9007199254740992" using ep dk d3 by linarith
  then have "\<bar>p - 100 * of_nat c / of_nat T\<bar> \<le> 1 / 200 + 502 / 9007199254740992"
    by (simp add: x1_def)
  with chain p show ?thesis by simp
qed

section \<open>Facts about the county distribution\<close>

lemma update_bump_sum:
  "sum_list (map snd (AList.update k ((case map_of m k of None \<Rightarrow> 0 | Some c \<Rightarrow> c) + 1) m))
   = sum_list (map snd m) + (1::nat)"
  by (induction m) auto

lemma update_pos:
  "\<forall>p\<in>set m. 1 \<le> snd p \<Longrightarrow> \<forall>p\<in>set (AList.update k (c + 1) m). (1::nat) \<le> snd p"
  by (induction m) auto

lemma county_step_sum:
  "sum_list (map snd (county_step m v))
   = sum_list (map snd m) + (if county v \<noteq> [] then 1 else 0)"
  using update_bump_sum [of "county v" m] by (simp add: county_step_def)

lemma county_step_pos:
  "\<forall>p\<in>set m. 1 \<le> snd p \<Longrightarrow> \<forall>p\<in>set (county_step m v). 1 \<le> snd p"
  using update_pos [of m "county v"] by (simp add: county_step_def)

lemma foldl_county_sum:
  "sum_list (map snd (foldl county_step m rs))
   = sum_list (map snd m) + length (filter (\<lambda>v. county v \<noteq> []) rs)"
  by (induction rs arbitrary: m) (simp_all add: county_step_sum)

lemma foldl_county_pos:
  "\<forall>p\<in>set m. 1 \<le> snd p \<Longrightarrow> \<forall>p\<in>set (foldl county_step m rs). 1 \<le> snd p"
proof (induction rs arbitrary: m)
  case Nil
  then show ?case by simp
next
  case (Cons v rs)
  from Cons.prems have "\<forall>p\<in>set (county_step m v). 1 \<le> snd p" by (rule county_step_pos)
  then have "\<forall>p\<in>set (foldl county_step (county_step m v) rs). 1 \<le> snd p" by (rule Cons.IH)
  then show ?case by simp
qed

lemma percent_sum:
  fixes T :: nat and tol :: rat
  assumes "\<forall>e\<in>set es. \<exists>p. pct e = Fin p \<and> \<bar>p - 100 * of_nat (cnt e) / of_nat T\<bar> \<le> tol"
  shows "\<exists>ps. map pct es = map Fin ps
           \<and> \<bar>sum_list ps - 100 * of_nat (sum_list (map cnt es)) / of_nat T\<bar>
               \<le> of_nat (length es) * tol"
  using assms
proof (induction es)
  case Nil
  show ?case by simp
next
  case (Cons e es)
  from Cons.prems obtain p where p: "pct e = Fin p"
    and ep: "\<bar>p - 100 * of_nat (cnt e) / of_nat T\<bar> \<le> tol" by auto
  from Cons obtain ps where ps: "map pct es = map Fin ps"
    and eps: "\<bar>sum_list ps - 100 * of_nat (sum_list (map cnt es)) / of_nat T\<bar>
               \<le> of_nat (length es) * tol" by auto
  have split: "100 * of_nat (sum_list (map cnt (e # es))) / (of_nat T :: rat)
      = 100 * of_nat (cnt e) / of_nat T + 100 * of_nat (sum_list (map cnt es)) / of_nat T"
    by (simp add: add_divide_distrib distrib_left)
  have "\<bar>sum_list (p # ps) - 100 * of_nat (sum_list (map cnt (e # es))) / of_nat T\<bar>
      \<le> of_nat (length (e # es)) * tol"
    unfolding split using ep eps by (simp add: distrib_right)
  moreover have "map pct (e # es) = map Fin (p # ps)" using p ps by simp
  ultimately show ?case by blast
qed

lemma county_distribution_percentages:
  assumes ne: "rawData eng \<noteq> []" and len: "length (rawData eng) < 2 ^ 32"
  shows "\<exists>ps. map cd_percentage (getCountyDistribution eng) = map Fin ps
        \<and> \<bar>sum_list ps - 100 * of_nat (length (filter (\<lambda>v. county v \<noteq> []) (rawData eng)))
                            / of_nat (length (rawData eng))\<bar>
            \<le> of_nat (length (getCountyDistribution eng)) * (1 / 200 + 1 / 10000000000000)"
proof -
  define cm where "cm = foldl county_step [] (rawData eng)"
  define T where "T = length (rawData eng)"
  define mk where "mk = (\<lambda>(c :: string, n). \<lparr>cd_county = c, cd_count = n, cd_percentage = percent2 n T\<rparr>)"
  have gd: "getCountyDistribution eng = js_sort (by_count_desc cd_count) (map mk cm)"
    by (simp add: getCountyDistribution_def cm_def T_def mk_def)
  have sum: "sum_list (map snd cm) = length (filter (\<lambda>v. county v \<noteq> []) (rawData eng))"
    using foldl_county_sum [of "[]" "rawData eng"] by (simp add: cm_def)
  have pos: "\<forall>p\<in>set cm. 1 \<le> snd p"
    unfolding cm_def by (rule foldl_county_pos) simp
  have le: "\<forall>p\<in>set cm. snd p \<le> T"
  proof
    fix p assume p: "p \<in> set cm"
    then have "snd p \<in> set (map snd cm)" by simp
    then have "snd p \<le> sum_list (map snd cm)" by (simp add: member_le_sum_list)
    also have "\<dots> \<le> T" unfolding sum T_def by (rule length_filter_le)
    finally show "snd p \<le> T" .
  qed
  have each: "\<forall>e\<in>set (getCountyDistribution eng).
      \<exists>p. cd_percentage e = Fin p
        \<and> \<bar>p - 100 * of_nat (cd_count e) / of_nat T\<bar> \<le> 1 / 200 + 1 / 10000000000000"
  proof
    fix e assume "e \<in> set (getCountyDistribution eng)"
    then obtain k n where kn: "(k, n) \<in> set cm" and e: "e = mk (k, n)"
      by (auto simp: gd)
    from kn pos le have n: "1 \<le> n" "n \<le> T" by auto
    from percent2_bound [OF n] len obtain p where p: "percent2 n T = Fin p"
      and b: "\<bar>p - 100 * of_nat n / of_nat T\<bar> \<le> 1 / 200 + 502 / 9007199254740992"
      by (auto simp: T_def)
    have "(1::rat) / 200 + 502 / 9007199254740992 \<le> 1 / 200 + 1 / 10000000000000" by simp
    with b have "\<bar>p - 100 * of_nat n / of_nat T\<bar> \<le> 1 / 200 + 1 / 10000000000000" by linarith
    with p show "\<exists>p. cd_percentage e = Fin p
        \<and> \<bar>p - 100 * of_nat (cd_count e) / of_nat T\<bar> \<le> 1 / 200 + 1 / 10000000000000"
      by (simp add: e mk_def)
  qed
  have cs: "sum_list (map cd_count (getCountyDistribution eng)) = sum_list (map snd cm)"
    by (simp add: gd comp_def mk_def case_prod_unfold)
  from percent_sum [OF each] show ?thesis unfolding cs sum T_def .
qed

lemma county_distribution_counts:
  "sum_list (map cd_count (getCountyDistribution eng))
   = length (filter (\<lambda>v. county v \<noteq> []) (rawData eng))"
proof -
  have "sum_list (map cd_count (getCountyDistribution eng))
      = sum_list (map snd (foldl county_step [] (rawData eng)))"
    by (simp add: getCountyDistribution_def Let_def comp_def case_prod_unfold)
  then show ?thesis using foldl_county_sum [of "[]" "rawData eng"] by simp
qed

lemma ex_counties:
  "map county (rawData ex_engine) = [''King'', ''King'', ''Pierce'']"
  by (simp add: rawData_ex_engine ex_row1_def ex_row2_def ex_row3_def parseRow_def js_index_def
       or_empty_def)

lemma ex_blank_counties:
  "map county (rawData ex_blank_engine) = [''King'', [], ''Pierce'']"
  by (simp add: ex_blank_engine_def loadData_Readable ex_row1_def ex_row2_def ex_row3_def
       parseRow_def js_index_def or_empty_def)

section \<open>Facts about the store\<close>

lemma insort_cmp_map:
  "insort_cmp cmp (f x) (map f ys) = map f (insort_cmp (\<lambda>a b. cmp (f a) (f b)) x ys)"
  by (induction ys) simp_all

lemma js_sort_map:
  "js_sort cmp (map f xs) = map f (js_sort (\<lambda>a b. cmp (f a) (f b)) xs)"
  by (induction xs) (simp_all add: js_sort_def insort_cmp_map)

lemmas machine_simps = arr_new_def cell_at_def read_records_def read_arr_def rec_filter_def
  rec_map_def arr_map_def arr_filter_def arr_slice0_def arr_sort_def nth_append
  list_update_append

lemma m_getCountyDistribution_run:
  assumes "read_records (this_rawData m) m = Some recs"
  shows "m_getCountyDistribution m
     = Some (Suc (length (heap m)),
             m\<lparr>heap := heap m @ [Arr (map ECount (foldl county_step [] recs)),
                                  Arr (map ECounty (getCountyDistribution \<lparr>rawData = recs\<rparr>))]\<rparr>)"
  using assms
  by (simp add: m_getCountyDistribution_def getCountyDistribution_def machine_simps Let_def
       js_sort_map by_count_desc_def comp_def case_prod_unfold)

lemma slice0_map: "slice0 (map f xs) e = map f (slice0 xs e)"
  by (cases "ToIntegerOrInfinity e") (simp_all add: slice0_def take_map)

lemma m_getYearlyTrends_run:
  assumes "read_records (this_rawData m) m = Some recs"
  shows "m_getYearlyTrends m
     = Some (Suc (length (heap m)),
             m\<lparr>heap := heap m @ [Arr (map EYear (foldl year_step [] recs)),
                                  Arr (map EYearly (getYearlyTrends \<lparr>rawData = recs\<rparr>))]\<rparr>)"
  using assms
  by (simp add: m_getYearlyTrends_def getYearlyTrends_def machine_simps Let_def
       js_sort_map comp_def case_prod_unfold)

lemma m_getMakeDistribution_run:
  assumes "read_records (this_rawData m) m = Some recs"
  shows "m_getMakeDistribution m
     = Some (Suc (length (heap m)),
             m\<lparr>heap := heap m @ [Arr (map EMake (foldl make_step [] recs)),
                                  Arr (map EMakeData (getMakeDistribution \<lparr>rawData = recs\<rparr>))]\<rparr>)"
  using assms
  by (simp add: m_getMakeDistribution_def getMakeDistribution_def machine_simps Let_def
       js_sort_map by_count_desc_def comp_def case_prod_unfold)

lemma m_getTopModels_run:
  assumes "read_records (this_rawData m) m = Some recs"
  shows "m_getTopModels limit m
     = Some (Suc (Suc (length (heap m))),
             m\<lparr>heap := heap m @
                [Arr (map EModel (foldl model_step [] recs)),
                 Arr (map EModelData (js_sort (by_count_desc mo_count)
                                        (map model_entry (foldl model_step [] recs)))),
                 Arr (map EModelData (getTopModels limit \<lparr>rawData = recs\<rparr>))]\<rparr>)"
  using assms
  by (simp add: m_getTopModels_def getTopModels_def machine_simps Let_def
       js_sort_map slice0_map by_count_desc_def comp_def)

lemma m_getUtilityDistribution_run:
  assumes "read_records (this_rawData m) m = Some recs"
  shows "m_getUtilityDistribution m
     = Some (Suc (Suc (length (heap m))),
             m\<lparr>heap := heap m @
                [Arr (map ECount (foldl utility_step [] recs)),
                 Arr (map EUtility (js_sort (by_count_desc ud_count)
                        (map (\<lambda>(u, n). \<lparr>ud_utility = u, ud_count = n,
                                         ud_percentage = percent2 n (length recs)\<rparr>)
                           (foldl utility_step [] recs)))),
                 Arr (map EUtility (getUtilityDistribution \<lparr>rawData = recs\<rparr>))]\<rparr>)"
  using assms
  by (simp add: m_getUtilityDistribution_def getUtilityDistribution_def machine_simps Let_def
       js_sort_map slice0_map by_count_desc_def comp_def case_prod_unfold)

lemma read_records_SomeD:
  "read_records a m = Some recs \<Longrightarrow> a < length (heap m) \<and> heap m ! a = Records recs"
  by (auto simp: read_records_def cell_at_def split: if_splits cell.splits)

lemma m_getRangeDistribution_run:
  assumes "read_records (this_rawData m) m = Some recs"
  shows "m_getRangeDistribution m
     = Some (Suc (Suc (Suc (length (heap m)))),
             m\<lparr>heap := heap m @
                [Arr (map ERangeDef ranges),
                 Records (filter (\<lambda>v. js_gt (electricRange v) (Fin 0)) recs),
                 Arr (map (\<lambda>(lo, hi, label). ERange
                        \<lparr>rd_rangeGroup = label,
                         rd_count = length (filter (\<lambda>v. js_ge (electricRange v) lo
                                      \<and> js_le (electricRange v) hi)
                                     (filter (\<lambda>v. js_gt (electricRange v) (Fin 0)) recs)),
                         rd_percentage = percent2
                           (length (filter (\<lambda>v. js_ge (electricRange v) lo
                                      \<and> js_le (electricRange v) hi)
                                     (filter (\<lambda>v. js_gt (electricRange v) (Fin 0)) recs)))
                           (length (filter (\<lambda>v. js_gt (electricRange v) (Fin 0)) recs))\<rparr>)
                      ranges),
                 Arr (map ERange (getRangeDistribution \<lparr>rawData = recs\<rparr>))]\<rparr>)"
  using read_records_SomeD [OF assms]
  by (simp add: m_getRangeDistribution_def getRangeDistribution_def machine_simps Let_def
       filter_map comp_def case_prod_unfold)

lemma m_getRawData_run: "m_getRawData m = Some (this_rawData m, m)"
  by (simp add: m_getRawData_def)

lemma m_getCountyDistribution_eq:
  "m_getCountyDistribution m =
     (case read_records (this_rawData m) m of
        None \<Rightarrow> None
      | Some recs \<Rightarrow>
          Some (Suc (length (heap m)),
                m\<lparr>heap := heap m @ [Arr (map ECount (foldl county_step [] recs)),
                     Arr (map ECounty (getCountyDistribution \<lparr>rawData = recs\<rparr>))]\<rparr>))"
proof (cases "read_records (this_rawData m) m")
  case None
  then show ?thesis by (simp add: m_getCountyDistribution_def)
next
  case (Some recs)
  then show ?thesis by (simp add: m_getCountyDistribution_run)
qed

lemma m_getMakeDistribution_eq:
  "m_getMakeDistribution m =
     (case read_records (this_rawData m) m of
        None \<Rightarrow> None
      | Some recs \<Rightarrow>
          Some (Suc (length (heap m)),
                m\<lparr>heap := heap m @ [Arr (map EMake (foldl make_step [] recs)),
                     Arr (map EMakeData (getMakeDistribution \<lparr>rawData = recs\<rparr>))]\<rparr>))"
proof (cases "read_records (this_rawData m) m")
  case None
  then show ?thesis by (simp add: m_getMakeDistribution_def)
next
  case (Some recs)
  then show ?thesis by (simp add: m_getMakeDistribution_run)
qed

lemma js_index_map: "js_index (map f xs) i = map_option f (js_index xs i)"
  by (simp add: js_index_def)

lemma m_getDashboardStats_run:
  assumes "read_records (this_rawData m) m = Some recs"
  shows "m_getDashboardStats m
     = Some (length (heap m) + 7,
             m\<lparr>heap := heap m @
                [Records (filter (\<lambda>v. js_gt (electricRange v) (Fin 0)) recs),
                 Arr (map ECount (foldl county_step [] recs)),
                 Arr (map ECounty (getCountyDistribution \<lparr>rawData = recs\<rparr>)),
                 Arr (map EMake (foldl make_step [] recs)),
                 Arr (map EMakeData (getMakeDistribution \<lparr>rawData = recs\<rparr>)),
                 Arr (map (\<lambda>v. ENum (modelYear v)) recs),
                 Arr (map ENum (filter (\<lambda>y. js_gt y (Fin 0)) (map modelYear recs))),
                 Obj (getDashboardStats \<lparr>rawData = recs\<rparr>)]\<rparr>)"
  using read_records_SomeD [OF assms] assms
  by (simp add: m_getDashboardStats_def getDashboardStats_def m_getCountyDistribution_eq
       m_getMakeDistribution_eq machine_simps Let_def filter_map comp_def js_index_map
       option.map_comp)

lemma run_spec:
  assumes "read_records (this_rawData m) m = Some recs"
  shows "\<exists>a ext. run q m = Some (a, m\<lparr>heap := heap m @ ext\<rparr>)
           \<and> cell_at (m\<lparr>heap := heap m @ ext\<rparr>) a
               = Some (cell_of (fst (call q \<lparr>rawData = recs\<rparr>)))"
proof (cases q)
  case GetDashboardStats
  show ?thesis unfolding GetDashboardStats run.simps m_getDashboardStats_run [OF assms]
    by (intro exI conjI, rule refl) (simp add: cell_at_def nth_append)
next
  case GetCountyDistribution
  show ?thesis unfolding GetCountyDistribution run.simps m_getCountyDistribution_run [OF assms]
    by (intro exI conjI, rule refl) (simp add: cell_at_def nth_append)
next
  case GetYearlyTrends
  show ?thesis unfolding GetYearlyTrends run.simps m_getYearlyTrends_run [OF assms]
    by (intro exI conjI, rule refl) (simp add: cell_at_def nth_append)
next
  case GetMakeDistribution
  show ?thesis unfolding GetMakeDistribution run.simps m_getMakeDistribution_run [OF assms]
    by (intro exI conjI, rule refl) (simp add: cell_at_def nth_append)
next
  case (GetTopModels limit)
  show ?thesis unfolding GetTopModels run.simps m_getTopModels_run [OF assms]
    by (intro exI conjI, rule refl) (simp add: cell_at_def nth_append)
next
  case GetRangeDistribution
  show ?thesis unfolding GetRangeDistribution run.simps m_getRangeDistribution_run [OF assms]
    by (intro exI conjI, rule refl) (simp add: cell_at_def nth_append)
next
  case GetUtilityDistribution
  show ?thesis unfolding GetUtilityDistribution run.simps m_getUtilityDistribution_run [OF assms]
    by (intro exI conjI, rule refl) (simp add: cell_at_def nth_append)
next
  case GetRawData
  have "m_getRawData m = Some (this_rawData m, m\<lparr>heap := heap m @ []\<rparr>)"
    by (simp add: m_getRawData_run)
  moreover have "cell_at (m\<lparr>heap := heap m @ []\<rparr>) (this_rawData m)
      = Some (cell_of (fst (call GetRawData \<lparr>rawData = recs\<rparr>)))"
    using read_records_SomeD [OF assms] by (simp add: cell_at_def getRawData_def)
  ultimately show ?thesis unfolding GetRawData run.simps by blast
qed

lemma read_records_extend:
  assumes "read_records a m = Some recs"
  shows "read_records a (m\<lparr>heap := heap m @ ext\<rparr>) = Some recs"
  using read_records_SomeD [OF assms]
  by (simp add: read_records_def cell_at_def nth_append)

lemma cell_at_extend:
  "cell_at m a = Some c \<Longrightarrow> cell_at (m\<lparr>heap := heap m @ ext\<rparr>) a = Some c"
  by (auto simp: cell_at_def nth_append split: if_splits)

section \<open>The claims\<close>

text \<open>
  C1. On an engine that holds no record, \<^verbatim>\<open>getDashboardStats\<close> returns without raising;
  \<open>avgElectricRange\<close> is \<open>0\<close>, but \<open>bevPercentage\<close> and \<open>phevPercentage\<close> are \<open>NaN\<close>
  (\<open>0 / 0\<close>), \<open>latestYear\<close> is \<open>-Infinity\<close> and \<open>earliestYear\<close> is \<open>Infinity\<close>: the
  guard \<^verbatim>\<open>|| 0\<close> does not catch them, an infinity being truthy.
\<close>

theorem getDashboardStats_empty:
  "getDashboardStats new_engine =
     \<lparr>totalVehicles = 0, avgElectricRange = Fin 0, bevPercentage = NaN, phevPercentage = NaN,
      topCounty = ''N/A'', topMake = ''N/A'', latestYear = NInf, earliestYear = PInf\<rparr>
   \<and> getDashboardStats (snd (loadData (Readable [ex_header]) new_engine))
       = getDashboardStats new_engine"
  by (simp add: getDashboardStats_def new_engine_def getCountyDistribution_def
      getMakeDistribution_def js_sort_def js_index_def top_name_def num_def
      Math_max_def Math_min_def or_zero_def truthy_num_def loadData_Readable)

text \<open>
  C2. As the claim states it, the per-county counts sum to the length of the record
  set. A loaded record with an empty county field is in no county: of the three
  example vehicles, the second with its county blanked, two are counted.
\<close>

theorem county_counts_sum_counterexample:
  "length (rawData ex_blank_engine) = 3
   \<and> sum_list (map cd_count (getCountyDistribution ex_blank_engine)) = 2
   \<and> sum_list (map cd_count (getCountyDistribution ex_blank_engine))
       \<noteq> length (rawData ex_blank_engine)"
proof -
  have "length (map county (rawData ex_blank_engine)) = 3"
    by (simp only: ex_blank_counties) simp
  then have l: "length (rawData ex_blank_engine) = 3" by simp
  have "length (filter (\<lambda>c. c \<noteq> []) (map county (rawData ex_blank_engine))) = 2"
    by (simp only: ex_blank_counties) simp
  then have "length (filter (\<lambda>v. county v \<noteq> []) (rawData ex_blank_engine)) = 2"
    by (simp add: filter_map comp_def)
  then have s: "sum_list (map cd_count (getCountyDistribution ex_blank_engine)) = 2"
    by (simp add: county_distribution_counts)
  from l s show ?thesis by simp
qed

text \<open>
  C2, amended. The per-county counts of \<^verbatim>\<open>getCountyDistribution\<close> sum to the number
  of records whose county is not empty. For a non-empty record set of fewer than
  \<open>2 ^ 32\<close> records every percentage is a finite number, and the percentages sum to
  100 times that number over the number of all records, up to \<open>0.005 + 10 ^ - 13\<close> for
  each returned county: to 100, up to that tolerance, when no record has an empty
  county.
\<close>

theorem getCountyDistribution_counts_percentages:
  "sum_list (map cd_count (getCountyDistribution eng))
     = length (filter (\<lambda>v. county v \<noteq> []) (rawData eng))
   \<and> (rawData eng \<noteq> [] \<and> length (rawData eng) < 2 ^ 32 \<longrightarrow>
        (\<exists>ps. map cd_percentage (getCountyDistribution eng) = map Fin ps
           \<and> \<bar>sum_list ps - 100 * of_nat (length (filter (\<lambda>v. county v \<noteq> []) (rawData eng)))
                               / of_nat (length (rawData eng))\<bar>
               \<le> of_nat (length (getCountyDistribution eng)) * (1 / 200 + 1 / 10000000000000)))
   \<and> (rawData eng \<noteq> [] \<and> length (rawData eng) < 2 ^ 32
        \<and> (\<forall>v\<in>set (rawData eng). county v \<noteq> []) \<longrightarrow>
        (\<exists>ps. map cd_percentage (getCountyDistribution eng) = map Fin ps
           \<and> \<bar>sum_list ps - 100\<bar>
               \<le> of_nat (length (getCountyDistribution eng)) * (1 / 200 + 1 / 10000000000000)))"
proof (intro conjI impI)
  show "sum_list (map cd_count (getCountyDistribution eng))
     = length (filter (\<lambda>v. county v \<noteq> []) (rawData eng))"
    by (rule county_distribution_counts)
next
  assume "rawData eng \<noteq> [] \<and> length (rawData eng) < 2 ^ 32"
  then show "\<exists>ps. map cd_percentage (getCountyDistribution eng) = map Fin ps
           \<and> \<bar>sum_list ps - 100 * of_nat (length (filter (\<lambda>v. county v \<noteq> []) (rawData eng)))
                               / of_nat (length (rawData eng))\<bar>
               \<le> of_nat (length (getCountyDistribution eng)) * (1 / 200 + 1 / 10000000000000)"
    using county_distribution_percentages [of eng] by blast
next
  assume a: "rawData eng \<noteq> [] \<and> length (rawData eng) < 2 ^ 32
        \<and> (\<forall>v\<in>set (rawData eng). county v \<noteq> [])"
  then have all: "filter (\<lambda>v. county v \<noteq> []) (rawData eng) = rawData eng" by simp
  from a have ne: "rawData eng \<noteq> []" and len: "length (rawData eng) < 2 ^ 32" by simp_all
  from ne have "(of_nat (length (rawData eng)) :: rat) \<noteq> 0" by simp
  then have one: "100 * of_nat (length (rawData eng)) / (of_nat (length (rawData eng)) :: rat) = 100"
    by simp
  from county_distribution_percentages [OF ne len]
  show "\<exists>ps. map cd_percentage (getCountyDistribution eng) = map Fin ps
           \<and> \<bar>sum_list ps - 100\<bar>
               \<le> of_nat (length (getCountyDistribution eng)) * (1 / 200 + 1 / 10000000000000)"
    unfolding all one .
qed

theorem getCountyDistribution_counts_percentages_witness:
  "rawData ex_engine \<noteq> [] \<and> length (rawData ex_engine) < 2 ^ 32
   \<and> list_all (\<lambda>v. county v \<noteq> []) (rawData ex_engine)
   \<and> sum_list (map cd_count (getCountyDistribution ex_engine)) = 3
   \<and> (\<exists>ps. map cd_percentage (getCountyDistribution ex_engine) = map Fin ps
         \<and> \<bar>sum_list ps - 100\<bar>
             \<le> of_nat (length (getCountyDistribution ex_engine)) * (1 / 200 + 1 / 10000000000000))"
proof -
  have h1: "rawData ex_engine \<noteq> []" by (simp add: rawData_ex_engine)
  have h2: "length (rawData ex_engine) < 2 ^ 32" by (simp add: rawData_ex_engine)
  have "list_all (\<lambda>c. c \<noteq> []) (map county (rawData ex_engine))"
    by (simp only: ex_counties) simp
  then have h3: "list_all (\<lambda>v. county v \<noteq> []) (rawData ex_engine)"
    by (simp add: list_all_iff)
  then have h3': "\<forall>v\<in>set (rawData ex_engine). county v \<noteq> []" by (simp add: list_all_iff)
  then have all: "filter (\<lambda>v. county v \<noteq> []) (rawData ex_engine) = rawData ex_engine" by simp
  note t = getCountyDistribution_counts_percentages [of ex_engine]
  from t have "sum_list (map cd_count (getCountyDistribution ex_engine))
     = length (filter (\<lambda>v. county v \<noteq> []) (rawData ex_engine))" by (elim conjE)
  then have c: "sum_list (map cd_count (getCountyDistribution ex_engine)) = 3"
    unfolding all by (simp add: rawData_ex_engine)
  from h1 h2 h3' have hyp: "rawData ex_engine \<noteq> [] \<and> length (rawData ex_engine) < 2 ^ 32
        \<and> (\<forall>v\<in>set (rawData ex_engine). county v \<noteq> [])" by (intro conjI)
  from t have "rawData ex_engine \<noteq> [] \<and> length (rawData ex_engine) < 2 ^ 32
        \<and> (\<forall>v\<in>set (rawData ex_engine). county v \<noteq> []) \<longrightarrow>
        (\<exists>ps. map cd_percentage (getCountyDistribution ex_engine) = map Fin ps
         \<and> \<bar>sum_list ps - 100\<bar>
             \<le> of_nat (length (getCountyDistribution ex_engine)) * (1 / 200 + 1 / 10000000000000))"
    by (elim conjE)
  from this hyp have p: "\<exists>ps. map cd_percentage (getCountyDistribution ex_engine) = map Fin ps
         \<and> \<bar>sum_list ps - 100\<bar>
             \<le> of_nat (length (getCountyDistribution ex_engine)) * (1 / 200 + 1 / 10000000000000)"
    by (rule mp)
  from h1 h2 h3 c p show ?thesis by (intro conjI)
qed

text \<open>
  C3. The \<open>totalVehicles\<close> field of \<^verbatim>\<open>getDashboardStats\<close> is the length of the array
  that \<^verbatim>\<open>getRawData\<close> returns, for every record set the engine holds.
\<close>

theorem totalVehicles_is_length_getRawData:
  "totalVehicles (getDashboardStats eng) = length (getRawData eng)"
  by (simp add: getDashboardStats_def getRawData_def Let_def)

text \<open>
  C4. For a record set that \<^verbatim>\<open>loadData\<close> has installed, the bucket counts of
  \<^verbatim>\<open>getRangeDistribution\<close> sum to the number of records with \<open>electricRange > 0\<close>; a
  bucket's count is the number of those records within the bucket's bounds and its
  percentage is \<^verbatim>\<open>Math.round((count / total) * 100 * 100) / 100\<close> with that number as
  total; the buckets keep the order of the fixed ascending table; no bucket has a
  count of zero.
\<close>

theorem getRangeDistribution_known_range_subset:
  "sum_list (map rd_count (getRangeDistribution (snd (loadData (Readable rows) eng0))))
     = length (filter (\<lambda>v. js_gt (electricRange v) (Fin 0))
                 (rawData (snd (loadData (Readable rows) eng0))))
   \<and> (\<forall>b\<in>set (getRangeDistribution (snd (loadData (Readable rows) eng0))).
          0 < rd_count b
          \<and> (\<exists>(lo, hi, label)\<in>set ranges. rd_rangeGroup b = label
                \<and> rd_count b = length (filter (\<lambda>v. js_gt (electricRange v) (Fin 0)
                                             \<and> js_ge (electricRange v) lo
                                             \<and> js_le (electricRange v) hi)
                                    (rawData (snd (loadData (Readable rows) eng0)))))
          \<and> rd_percentage b
              = percent2 (rd_count b)
                  (length (filter (\<lambda>v. js_gt (electricRange v) (Fin 0))
                             (rawData (snd (loadData (Readable rows) eng0))))))
   \<and> subseq (map rd_rangeGroup (getRangeDistribution (snd (loadData (Readable rows) eng0))))
        [''0-50 miles'', ''51-100 miles'', ''101-150 miles'', ''151-200 miles'',
         ''201-250 miles'', ''251-300 miles'', ''300+ miles'']"
proof -
  define eng where "eng = snd (loadData (Readable rows) eng0)"
  define valid where "valid = filter (\<lambda>v. js_gt (electricRange v) (Fin 0)) (rawData eng)"
  define bucket where "bucket = (\<lambda>b :: jsnum \<times> jsnum \<times> string.
      \<lparr>rd_rangeGroup = snd (snd b),
       rd_count = length (filter (\<lambda>v. js_ge (electricRange v) (fst b)
                                 \<and> js_le (electricRange v) (fst (snd b))) valid),
       rd_percentage = percent2
         (length (filter (\<lambda>v. js_ge (electricRange v) (fst b)
                                 \<and> js_le (electricRange v) (fst (snd b))) valid))
         (length valid)\<rparr>)"
  have unf: "getRangeDistribution eng = filter (\<lambda>r. 0 < rd_count r) (map bucket ranges)"
    by (simp add: getRangeDistribution_unfold bucket_def valid_def)
  have one: "\<forall>v\<in>set valid.
      (\<Sum>b\<leftarrow>ranges. if js_ge (electricRange v) (fst b) \<and> js_le (electricRange v) (fst (snd b))
                     then 1 else 0) = (1::nat)"
  proof
    fix v assume "v \<in> set valid"
    then have "v \<in> set (rawData eng)" and gt: "js_gt (electricRange v) (Fin 0)"
      by (simp_all add: valid_def)
    then show "(\<Sum>b\<leftarrow>ranges. if js_ge (electricRange v) (fst b)
                     \<and> js_le (electricRange v) (fst (snd b)) then 1 else 0) = (1::nat)"
      using loaded_range_cases [of v rows eng0] by (intro one_bucket) (simp_all add: eng_def)
  qed
  have "sum_list (map rd_count (getRangeDistribution eng)) = sum_list (map rd_count (map bucket ranges))"
    by (simp only: unf sum_filter_pos)
  also have "\<dots> = (\<Sum>b\<leftarrow>ranges. length (filter (\<lambda>v. js_ge (electricRange v) (fst b)
                                 \<and> js_le (electricRange v) (fst (snd b))) valid))"
    by (simp add: bucket_def comp_def)
  also have "\<dots> = length valid"
    by (rule bucket_counts_sum [where P = "\<lambda>b v. js_ge (electricRange v) (fst b)
                                 \<and> js_le (electricRange v) (fst (snd b))", OF one])
  finally have total: "sum_list (map rd_count (getRangeDistribution eng)) = length valid" .
  have each: "0 < rd_count b
          \<and> (\<exists>(lo, hi, label)\<in>set ranges. rd_rangeGroup b = label
                \<and> rd_count b = length (filter (\<lambda>v. js_gt (electricRange v) (Fin 0)
                                             \<and> js_ge (electricRange v) lo
                                             \<and> js_le (electricRange v) hi) (rawData eng)))
          \<and> rd_percentage b = percent2 (rd_count b) (length valid)"
    if "b \<in> set (getRangeDistribution eng)" for b
  proof -
    from that obtain r where r: "r \<in> set ranges" "b = bucket r" and pos: "0 < rd_count b"
      by (auto simp: unf)
    obtain lo hi label where lhl: "r = (lo, hi, label)" by (cases r) auto
    have "rd_rangeGroup b = label" by (simp add: r lhl bucket_def)
    moreover have "rd_count b = length (filter (\<lambda>v. js_gt (electricRange v) (Fin 0)
                                             \<and> js_ge (electricRange v) lo
                                             \<and> js_le (electricRange v) hi) (rawData eng))"
      by (simp add: r lhl bucket_def valid_def conj_commute cong: conj_cong)
    ultimately have "\<exists>(lo, hi, label)\<in>set ranges. rd_rangeGroup b = label
                \<and> rd_count b = length (filter (\<lambda>v. js_gt (electricRange v) (Fin 0)
                                             \<and> js_ge (electricRange v) lo
                                             \<and> js_le (electricRange v) hi) (rawData eng))"
      using r(1) lhl by blast
    moreover have "rd_percentage b = percent2 (rd_count b) (length valid)"
      by (simp add: r bucket_def)
    ultimately show ?thesis using pos by blast
  qed
  have "map rd_rangeGroup (getRangeDistribution eng)
      = map (\<lambda>b. snd (snd b)) (filter ((\<lambda>r. 0 < rd_count r) \<circ> bucket) ranges)"
    by (simp add: unf filter_map comp_def bucket_def)
  moreover have "subseq (map (\<lambda>b. snd (snd b)) (filter ((\<lambda>r. 0 < rd_count r) \<circ> bucket) ranges))
      (map (\<lambda>b. snd (snd b)) ranges)"
    by (intro subseq_map subseq_filter_left)
  moreover have "map (\<lambda>b. snd (snd b)) ranges
      = [''0-50 miles'', ''51-100 miles'', ''101-150 miles'', ''151-200 miles'',
         ''201-250 miles'', ''251-300 miles'', ''300+ miles'']"
    by (simp add: ranges_def)
  ultimately have order: "subseq (map rd_rangeGroup (getRangeDistribution eng))
        [''0-50 miles'', ''51-100 miles'', ''101-150 miles'', ''151-200 miles'',
         ''201-250 miles'', ''251-300 miles'', ''300+ miles'']"
    by simp
  from total each order show ?thesis unfolding eng_def valid_def by (intro conjI ballI) blast+
qed

theorem getRangeDistribution_known_range_subset_witness:
  "map (\<lambda>b. (rd_rangeGroup b, rd_count b)) (getRangeDistribution ex_engine)
     = [(''151-200 miles'', 1), (''251-300 miles'', 1)]
   \<and> sum_list (map rd_count (getRangeDistribution ex_engine))
       = length (filter (\<lambda>v. js_gt (electricRange v) (Fin 0)) (rawData ex_engine))
   \<and> list_all (\<lambda>b. 0 < rd_count b
          \<and> rd_percentage b
              = percent2 (rd_count b)
                  (length (filter (\<lambda>v. js_gt (electricRange v) (Fin 0)) (rawData ex_engine))))
        (getRangeDistribution ex_engine)"
proof -
  note t = getRangeDistribution_known_range_subset
             [of "[ex_header, ex_row1, ex_row2, ex_row3]" new_engine, folded ex_engine_def]
  from t have a: "sum_list (map rd_count (getRangeDistribution ex_engine))
       = length (filter (\<lambda>v. js_gt (electricRange v) (Fin 0)) (rawData ex_engine))"
    by (elim conjE)
  from t have "\<forall>b\<in>set (getRangeDistribution ex_engine). 0 < rd_count b
          \<and> rd_percentage b
              = percent2 (rd_count b)
                  (length (filter (\<lambda>v. js_gt (electricRange v) (Fin 0)) (rawData ex_engine)))"
    by (elim conjE) blast
  with a ex_ranges show ?thesis unfolding list_all_iff by (intro conjI)
qed

text \<open>
  C5. As the claim states it, a row whose model-year field is not a number is retained
  with \<open>modelYear = 0\<close> and is excluded from the yearly trends. The field \<^verbatim>\<open>2021abc\<close> is
  not a number, but \<^verbatim>\<open>parseInt\<close> reads its leading digits: the record has the model
  year 2021 and is counted in the trends, which count three vehicles with the row and
  two without it.
\<close>

theorem non_numeric_year_counterexample:
  "js_index ex_digits_row 5 = Some ''2021abc''
   \<and> modelYear (parseRow ex_digits_row) = Fin 2021
   \<and> sum_list (map yd_count (getYearlyTrends
         (snd (loadData (Readable [ex_header, ex_row1, ex_digits_row, ex_row3]) new_engine)))) = 3
   \<and> sum_list (map yd_count (getYearlyTrends
         (snd (loadData (Readable [ex_header, ex_row1, ex_row3]) new_engine)))) = 2
   \<and> getYearlyTrends (snd (loadData (Readable [ex_header, ex_row1, ex_digits_row, ex_row3]) new_engine))
       \<noteq> getYearlyTrends (snd (loadData (Readable [ex_header, ex_row1, ex_row3]) new_engine))"
proof -
  have a: "js_index ex_digits_row 5 = Some ''2021abc''"
    by (simp add: ex_digits_row_def ex_row2_def js_index_def)
  have b: "modelYear (parseRow ex_digits_row) = Fin 2021"
    by (simp add: ex_digits_row_def ex_row2_def parse_simps)
  have c: "sum_list (map yd_count (getYearlyTrends
         (snd (loadData (Readable [ex_header, ex_row1, ex_digits_row, ex_row3]) new_engine)))) = 3"
    by (simp add: snd_loadData_Readable getYearlyTrends_def year_step_def comp_def
          ex_digits_row_def ex_row1_def ex_row2_def ex_row3_def parse_simps)
  have d: "sum_list (map yd_count (getYearlyTrends
         (snd (loadData (Readable [ex_header, ex_row1, ex_row3]) new_engine)))) = 2"
    by (simp add: snd_loadData_Readable getYearlyTrends_def year_step_def comp_def
          ex_row1_def ex_row3_def parse_simps)
  from c d have "getYearlyTrends (snd (loadData (Readable [ex_header, ex_row1, ex_digits_row, ex_row3]) new_engine))
       \<noteq> getYearlyTrends (snd (loadData (Readable [ex_header, ex_row1, ex_row3]) new_engine))"
    by (metis numeral_eq_iff semiring_norm(88))
  with a b c d show ?thesis by (intro conjI)
qed

text \<open>
  C5, amended. No data row aborts the load: every row after the header becomes a
  record, and the total vehicle count counts it. A row whose parsed model year is not
  greater than \<open>0\<close> leaves the yearly trends as they are without the row. When the
  model-year field has, after leading white space and an optional sign, no decimal
  digit, the record has \<open>modelYear = 0\<close> and the row is so excluded. A field that is
  not a number and begins with digits is read by them.
\<close>

theorem year_without_leading_digit_row:
  "loadData (Readable (header # pre @ row # post)) eng
       = (Inr (map parseRow pre @ parseRow row # map parseRow post),
          eng\<lparr>rawData := map parseRow pre @ parseRow row # map parseRow post\<rparr>)
   \<and> totalVehicles (getDashboardStats (snd (loadData (Readable (header # pre @ row # post)) eng)))
       = length pre + 1 + length post
   \<and> (\<not> js_gt (modelYear (parseRow row)) (Fin 0) \<longrightarrow>
        getYearlyTrends (snd (loadData (Readable (header # pre @ row # post)) eng))
          = getYearlyTrends (snd (loadData (Readable (header # pre @ post)) eng)))
   \<and> (js_index row 5 = Some y \<and> no_leading_digit y \<longrightarrow>
        modelYear (parseRow row) = Fin 0
        \<and> getYearlyTrends (snd (loadData (Readable (header # pre @ row # post)) eng))
            = getYearlyTrends (snd (loadData (Readable (header # pre @ post)) eng)))"
proof -
  have ld: "loadData (Readable (header # pre @ row # post)) eng
           = (Inr (map parseRow pre @ parseRow row # map parseRow post),
              eng\<lparr>rawData := map parseRow pre @ parseRow row # map parseRow post\<rparr>)"
    by (simp add: loadData_Readable)
  have tot: "totalVehicles (getDashboardStats (snd (loadData (Readable (header # pre @ row # post)) eng)))
           = length pre + 1 + length post"
    by (simp add: snd_loadData_Readable getDashboardStats_def Let_def)
  have tr: "getYearlyTrends (snd (loadData (Readable (header # pre @ row # post)) eng))
           = getYearlyTrends (snd (loadData (Readable (header # pre @ post)) eng))"
    if "\<not> js_gt (modelYear (parseRow row)) (Fin 0)"
    using getYearlyTrends_skip [OF that, of "map parseRow pre" "map parseRow post"]
    by (simp add: snd_loadData_Readable)
  have yr: "modelYear (parseRow row) = Fin 0" if "js_index row 5 = Some y" "no_leading_digit y"
    using that no_leading_digit_parseInt [OF that(2)]
    by (simp add: parseRow_def or_zero_def truthy_num_def)
  have tr0: "getYearlyTrends (snd (loadData (Readable (header # pre @ row # post)) eng))
           = getYearlyTrends (snd (loadData (Readable (header # pre @ post)) eng))"
    if "js_index row 5 = Some y" "no_leading_digit y"
    using yr [OF that] by (intro tr) simp
  from ld tot tr yr tr0 show ?thesis by (intro conjI impI) auto
qed

theorem year_without_leading_digit_row_witness:
  "js_index ex_bad_row 5 = Some ''n/a'' \<and> no_leading_digit ''n/a''
   \<and> modelYear (parseRow ex_bad_row) = Fin 0
   \<and> getYearlyTrends (snd (loadData (Readable (ex_header # [ex_row1] @ ex_bad_row # [ex_row3])) new_engine))
       = getYearlyTrends (snd (loadData (Readable (ex_header # [ex_row1] @ [ex_row3])) new_engine))
   \<and> totalVehicles (getDashboardStats
         (snd (loadData (Readable (ex_header # [ex_row1] @ ex_bad_row # [ex_row3])) new_engine))) = 3"
proof -
  have h1: "js_index ex_bad_row 5 = Some ''n/a''"
    by (simp add: ex_bad_row_def ex_row2_def js_index_def)
  have h2: "no_leading_digit ''n/a''"
    by (simp add: no_leading_digit_def is_white_def digit_val_def)
  note t = year_without_leading_digit_row
             [of ex_header "[ex_row1]" ex_bad_row "[ex_row3]" new_engine "''n/a''"]
  from t h1 h2 have a: "modelYear (parseRow ex_bad_row) = Fin 0" by blast
  from t h1 h2 have b: "getYearlyTrends (snd (loadData (Readable (ex_header # [ex_row1] @ ex_bad_row # [ex_row3])) new_engine))
       = getYearlyTrends (snd (loadData (Readable (ex_header # [ex_row1] @ [ex_row3])) new_engine))"
    by blast
  from t have "totalVehicles (getDashboardStats
         (snd (loadData (Readable (ex_header # [ex_row1] @ ex_bad_row # [ex_row3])) new_engine)))
       = length [ex_row1] + 1 + length [ex_row3]" by blast
  then have c: "totalVehicles (getDashboardStats
         (snd (loadData (Readable (ex_header # [ex_row1] @ ex_bad_row # [ex_row3])) new_engine))) = 3"
    by simp
  from h1 h2 a b c show ?thesis by blast
qed

text \<open>
  C6. A row of eight columns is parsed without a failure. Its missing numeric fields
  are \<open>0\<close> and its missing string fields are empty, except the powertrain field
  \<open>electricVehicleType\<close>, which is \<^verbatim>\<open>undefined\<close>: \<^verbatim>\<open>row[8]\<close> is stored as it is.
\<close>

theorem parseRow_eight_columns:
  "parseRow (take 8 ex_row1) =
     \<lparr>vin = ''5YJ3E1EA0K'', county = ''King'', city = ''Seattle'', state = ''WA'',
      postalCode = ''98101'', modelYear = Fin 2021, make' = ''TESLA'', model = ''MODEL 3'',
      electricVehicleType = None, cafvEligibility = [], electricRange = Fin 0,
      baseMsrp = Fin 0, legislativeDistrict = Fin 0, dolVehicleId = [],
      vehicleLocation = [], electricUtility = [], censusTract = []\<rparr>"
  by (simp add: ex_row1_def parse_simps)

text \<open>
  C7. For a limit \<open>n \<ge> 0\<close>, \<^verbatim>\<open>getTopModels(n)\<close> returns at most \<open>n\<close> entries, in
  descending order of count; with the argument omitted at most 10. A second call with
  the same limit on the engine the first call leaves behind gives the same answer.
\<close>

theorem getTopModels_limit_sorted_deterministic:
  assumes "js_ge n (Fin 0)"
  shows "js_le (num (length (getTopModels (Some n) eng))) n
       \<and> length (getTopModels None eng) \<le> 10
       \<and> sorted_wrt (\<lambda>a b. mo_count b \<le> mo_count a) (getTopModels (Some n) eng)
       \<and> call (GetTopModels (Some n)) (snd (call (GetTopModels (Some n)) eng))
           = call (GetTopModels (Some n)) eng"
proof -
  have len: "js_le (num (length (getTopModels (Some n) eng))) n"
    using length_slice0 [OF assms] by (simp add: getTopModels_def Let_def)
  have dflt: "length (getTopModels None eng) \<le> 10"
    using length_slice0_nat [of _ 10] by (simp add: getTopModels_def Let_def)
  have srt: "sorted_wrt (\<lambda>a b. mo_count b \<le> mo_count a) (getTopModels (Some n) eng)"
    by (simp add: getTopModels_def Let_def sorted_wrt_slice0 sorted_js_sort_count)
  have det: "call (GetTopModels (Some n)) (snd (call (GetTopModels (Some n)) eng))
           = call (GetTopModels (Some n)) eng"
    by simp
  from len dflt srt det show ?thesis by blast
qed

theorem getTopModels_limit_sorted_deterministic_witness:
  "js_ge (Fin 1) (Fin 0)
   \<and> js_le (num (length (getTopModels (Some (Fin 1)) ex_engine))) (Fin 1)
   \<and> sorted_wrt (\<lambda>a b. mo_count b \<le> mo_count a) (getTopModels (Some (Fin 1)) ex_engine)"
proof -
  have h: "js_ge (Fin 1) (Fin 0)" by simp
  from getTopModels_limit_sorted_deterministic [OF h, of ex_engine] h show ?thesis by blast
qed

text \<open>
  C8. A data file that cannot be read makes the load fail and leaves the held record
  set as it was only when \<^verbatim>\<open>fetch\<close> rejects. When the server answers the request with
  an error status, \<^verbatim>\<open>fetch\<close> resolves and \<^verbatim>\<open>loadData\<close> does not look at
  \<^verbatim>\<open>response.ok\<close>: for a 404 answer whose body is an error page of two lines the load
  succeeds, and the one record made of the page's second line replaces the three
  records the engine held.
\<close>

theorem loadData_installs_error_page:
  "loadData (source_of (Resolved 404 ex_not_found_page)) ex_engine
     = (Inr [parseRow [''<h1>404: This page could not be found.</h1>'']],
        \<lparr>rawData = [parseRow [''<h1>404: This page could not be found.</h1>'']]\<rparr>)
   \<and> length (rawData ex_engine) = 3
   \<and> length (rawData (snd (loadData (source_of (Resolved 404 ex_not_found_page)) ex_engine))) = 1
   \<and> vin (hd (rawData (snd (loadData (source_of (Resolved 404 ex_not_found_page)) ex_engine))))
       = ''<h1>404: This page could not be found.</h1>''
   \<and> loadData (source_of (Rejected ''Failed to fetch'')) ex_engine
       = (Inl (SourceUnreadable ''Failed to fetch''), ex_engine)"
  by (simp add: source_of_def ex_not_found_page_def loadData_Readable rawData_ex_engine
       ex_engine_def new_engine_def)
     (simp add: loadData_def parseRow_def js_index_def or_empty_def)

text \<open>
  C9. In a store where \<^verbatim>\<open>this.rawData\<close> refers to an array of records, every query
  method returns, and all it writes to are addresses it has allocated itself: the
  engine's field and every array and object that existed before the call are as they
  were, so the engine holds the same records. The array or object at the returned
  address is the answer computed from those records. The same query called again
  returns the same contents, and leaves the first answer as it was.
\<close>

theorem queries_write_only_to_fresh_addresses:
  assumes "read_records (this_rawData m) m = Some recs"
  shows "\<exists>a1 m1 a2 m2.
           run q m = Some (a1, m1) \<and> run q m1 = Some (a2, m2)
         \<and> this_rawData m1 = this_rawData m \<and> this_rawData m2 = this_rawData m
         \<and> take (length (heap m)) (heap m1) = heap m
         \<and> take (length (heap m1)) (heap m2) = heap m1
         \<and> read_records (this_rawData m1) m1 = Some recs
         \<and> read_records (this_rawData m2) m2 = Some recs
         \<and> cell_at m1 a1 = Some (cell_of (fst (call q \<lparr>rawData = recs\<rparr>)))
         \<and> cell_at m2 a2 = cell_at m1 a1
         \<and> cell_at m2 a1 = cell_at m1 a1"
proof -
  from run_spec [OF assms, of q] obtain a1 ext1 where
    r1: "run q m = Some (a1, m\<lparr>heap := heap m @ ext1\<rparr>)"
    and c1: "cell_at (m\<lparr>heap := heap m @ ext1\<rparr>) a1
               = Some (cell_of (fst (call q \<lparr>rawData = recs\<rparr>)))"
    by blast
  define m1 where "m1 = m\<lparr>heap := heap m @ ext1\<rparr>"
  have t1: "this_rawData m1 = this_rawData m" by (simp add: m1_def)
  have rr1: "read_records (this_rawData m1) m1 = Some recs"
    using read_records_extend [OF assms, of ext1] by (simp add: m1_def)
  from run_spec [OF rr1, of q] obtain a2 ext2 where
    r2: "run q m1 = Some (a2, m1\<lparr>heap := heap m1 @ ext2\<rparr>)"
    and c2: "cell_at (m1\<lparr>heap := heap m1 @ ext2\<rparr>) a2
               = Some (cell_of (fst (call q \<lparr>rawData = recs\<rparr>)))"
    by blast
  define m2 where "m2 = m1\<lparr>heap := heap m1 @ ext2\<rparr>"
  have t2: "this_rawData m2 = this_rawData m" by (simp add: m2_def t1)
  have rr2: "read_records (this_rawData m2) m2 = Some recs"
    using read_records_extend [OF rr1, of ext2] by (simp add: m2_def)
  have p1: "take (length (heap m)) (heap m1) = heap m" by (simp add: m1_def)
  have p2: "take (length (heap m1)) (heap m2) = heap m1" by (simp add: m2_def)
  have c1': "cell_at m1 a1 = Some (cell_of (fst (call q \<lparr>rawData = recs\<rparr>)))"
    using c1 by (simp add: m1_def)
  have c2': "cell_at m2 a2 = cell_at m1 a1" using c2 c1' by (simp add: m2_def)
  have c3: "cell_at m2 a1 = cell_at m1 a1"
    using cell_at_extend [OF c1', of ext2] c1' by (simp add: m2_def)
  from r1 r2 t1 t2 p1 p2 rr1 rr2 c1' c2' c3 show ?thesis
    unfolding m1_def [symmetric] m2_def [symmetric] by blast
qed

theorem queries_write_only_to_fresh_addresses_witness:
  "read_records (this_rawData ex_machine) ex_machine = Some (rawData ex_engine)
   \<and> (\<exists>a1 m1 a2 m2.
           run GetCountyDistribution ex_machine = Some (a1, m1)
         \<and> run GetCountyDistribution m1 = Some (a2, m2)
         \<and> this_rawData m2 = this_rawData ex_machine
         \<and> take (length (heap ex_machine)) (heap m1) = heap ex_machine
         \<and> read_records (this_rawData m2) m2 = Some (rawData ex_engine)
         \<and> cell_at m1 a1 = Some (Arr (map ECounty (getCountyDistribution ex_engine)))
         \<and> cell_at m2 a2 = cell_at m1 a1)"
proof -
  have h: "read_records (this_rawData ex_machine) ex_machine = Some (rawData ex_engine)"
    by (simp add: ex_machine_def read_records_def cell_at_def)
  have e: "\<lparr>rawData = rawData ex_engine\<rparr> = ex_engine" by simp
  from queries_write_only_to_fresh_addresses [OF h, of GetCountyDistribution]
  obtain a1 m1 a2 m2 where
    "run GetCountyDistribution ex_machine = Some (a1, m1)"
    "run GetCountyDistribution m1 = Some (a2, m2)"
    "this_rawData m2 = this_rawData ex_machine"
    "take (length (heap ex_machine)) (heap m1) = heap ex_machine"
    "read_records (this_rawData m2) m2 = Some (rawData ex_engine)"
    "cell_at m1 a1 = Some (cell_of (fst (call GetCountyDistribution \<lparr>rawData = rawData ex_engine\<rparr>)))"
    "cell_at m2 a2 = cell_at m1 a1"
    by blast
  then have "\<exists>a1 m1 a2 m2.
           run GetCountyDistribution ex_machine = Some (a1, m1)
         \<and> run GetCountyDistribution m1 = Some (a2, m2)
         \<and> this_rawData m2 = this_rawData ex_machine
         \<and> take (length (heap ex_machine)) (heap m1) = heap ex_machine
         \<and> read_records (this_rawData m2) m2 = Some (rawData ex_engine)
         \<and> cell_at m1 a1 = Some (Arr (map ECounty (getCountyDistribution ex_engine)))
         \<and> cell_at m2 a2 = cell_at m1 a1"
    unfolding e by (intro exI [of _ a1] exI [of _ m1] exI [of _ a2] exI [of _ m2]) simp
  with h show ?thesis ..
qed

text \<open>
  C10. \<^verbatim>\<open>getTopModels\<close> groups under the key \<^verbatim>\<open>make|model\<close>: the count of an entry is
  the number of vehicles with the entry's key, its make is the key up to the first
  \<^verbatim>\<open>|\<close> and its model the key text between the first \<^verbatim>\<open>|\<close> and the next. When no make
  contains \<^verbatim>\<open>|\<close>, the count is the number of vehicles with one (make, model) pair, the
  reported make is that make, and there are as many entries as pairs. When a make
  contains \<^verbatim>\<open>|\<close>, different pairs can share an entry: the makes \<^verbatim>\<open>A|B\<close> and \<^verbatim>\<open>A\<close> with the
  models \<^verbatim>\<open>C\<close> and \<^verbatim>\<open>B|C\<close> give the one entry of make \<^verbatim>\<open>A\<close>, model \<^verbatim>\<open>B\<close> and count 2.
\<close>

theorem getTopModels_groups_by_key:
  "(\<forall>e\<in>set (getTopModels limit eng). \<exists>r\<in>set (rawData eng).
       make' r \<noteq> [] \<and> model r \<noteq> []
       \<and> mo_count e = length (filter (\<lambda>r'. make' r' \<noteq> [] \<and> model r' \<noteq> []
                                         \<and> model_key r' = model_key r) (rawData eng))
       \<and> mo_make e = Some (takeWhile (\<lambda>c. c \<noteq> CHR ''|'') (model_key r))
       \<and> mo_model e = Some (takeWhile (\<lambda>c. c \<noteq> CHR ''|'')
                              (tl (dropWhile (\<lambda>c. c \<noteq> CHR ''|'') (model_key r)))))
   \<and> ((\<forall>r\<in>set (rawData eng). CHR ''|'' \<notin> set (make' r)) \<longrightarrow>
        (\<forall>e\<in>set (getTopModels limit eng). \<exists>r\<in>set (rawData eng).
           make' r \<noteq> [] \<and> model r \<noteq> []
           \<and> mo_count e = length (filter (\<lambda>r'. make' r' = make' r \<and> model r' = model r)
                                   (rawData eng))
           \<and> mo_make e = Some (make' r)
           \<and> mo_model e = Some (takeWhile (\<lambda>c. c \<noteq> CHR ''|'') (model r)))
        \<and> length (getTopModels (Some PInf) eng)
            = card ((\<lambda>r. (make' r, model r))
                      ` {r \<in> set (rawData eng). make' r \<noteq> [] \<and> model r \<noteq> []}))
   \<and> map (\<lambda>r. (make' r, model r)) (rawData ex_pipe_engine) = [(''A|B'', ''C''), (''A'', ''B|C'')]
   \<and> map (\<lambda>e. (mo_make e, mo_model e, mo_count e)) (getTopModels None ex_pipe_engine)
       = [(Some ''A'', Some ''B'', 2)]"
proof -
  let ?rs = "rawData eng"
  have gen: "\<exists>r\<in>set ?rs. make' r \<noteq> [] \<and> model r \<noteq> []
       \<and> mo_count e = length (filter (\<lambda>r'. make' r' \<noteq> [] \<and> model r' \<noteq> []
                                         \<and> model_key r' = model_key r) ?rs)
       \<and> mo_make e = Some (takeWhile (\<lambda>c. c \<noteq> CHR ''|'') (model_key r))
       \<and> mo_model e = Some (takeWhile (\<lambda>c. c \<noteq> CHR ''|'')
                              (tl (dropWhile (\<lambda>c. c \<noteq> CHR ''|'') (model_key r))))"
    if e: "e \<in> set (getTopModels limit eng)" for e
  proof -
    from e getTopModels_subset obtain k acc where
      ka: "(k, acc) \<in> set (foldl model_step [] ?rs)" and ee: "e = model_entry (k, acc)"
      by fastforce
    from modelMap_entry [OF ka] obtain r where
      r: "r \<in> set ?rs" "make' r \<noteq> []" "model r \<noteq> []" "k = model_key r"
      and c: "fst acc = length (filter (\<lambda>r'. make' r' \<noteq> [] \<and> model r' \<noteq> []
                                            \<and> model_key r' = model_key r) ?rs)"
      by blast
    have "mo_count e = fst acc" by (simp add: ee model_entry_fields)
    moreover have "mo_make e = Some (takeWhile (\<lambda>c. c \<noteq> CHR ''|'') (model_key r))"
      by (simp add: ee model_entry_fields r(4) split_index_0)
    moreover have "mo_model e = Some (takeWhile (\<lambda>c. c \<noteq> CHR ''|'')
                              (tl (dropWhile (\<lambda>c. c \<noteq> CHR ''|'') (model_key r))))"
      using split_index_1 [OF pipe_in_model_key, of r]
      by (simp add: ee model_entry_fields r(4))
    ultimately show ?thesis using r c by auto
  qed
  have exact: "\<exists>r\<in>set ?rs. make' r \<noteq> [] \<and> model r \<noteq> []
           \<and> mo_count e = length (filter (\<lambda>r'. make' r' = make' r \<and> model r' = model r) ?rs)
           \<and> mo_make e = Some (make' r)
           \<and> mo_model e = Some (takeWhile (\<lambda>c. c \<noteq> CHR ''|'') (model r))"
    if np: "\<forall>r\<in>set ?rs. CHR ''|'' \<notin> set (make' r)" and e: "e \<in> set (getTopModels limit eng)"
    for e
  proof -
    from gen [OF e] obtain r where
      r: "r \<in> set ?rs" "make' r \<noteq> []" "model r \<noteq> []"
      and c: "mo_count e = length (filter (\<lambda>r'. make' r' \<noteq> [] \<and> model r' \<noteq> []
                                         \<and> model_key r' = model_key r) ?rs)"
      and mk: "mo_make e = Some (takeWhile (\<lambda>c. c \<noteq> CHR ''|'') (model_key r))"
      and mo: "mo_model e = Some (takeWhile (\<lambda>c. c \<noteq> CHR ''|'')
                              (tl (dropWhile (\<lambda>c. c \<noteq> CHR ''|'') (model_key r))))"
      by blast
    from np r(1) have npr: "CHR ''|'' \<notin> set (make' r)" by blast
    have "filter (\<lambda>r'. make' r' \<noteq> [] \<and> model r' \<noteq> [] \<and> model_key r' = model_key r) ?rs
        = filter (\<lambda>r'. make' r' = make' r \<and> model r' = model r) ?rs"
    proof (rule filter_cong [OF refl])
      fix r' assume "r' \<in> set ?rs"
      with np have "CHR ''|'' \<notin> set (make' r')" by blast
      from model_key_inj [OF this npr] r(2,3)
      show "(make' r' \<noteq> [] \<and> model r' \<noteq> [] \<and> model_key r' = model_key r)
            = (make' r' = make' r \<and> model r' = model r)" by auto
    qed
    with c have "mo_count e = length (filter (\<lambda>r'. make' r' = make' r \<and> model r' = model r) ?rs)"
      by simp
    moreover from mk have "mo_make e = Some (make' r)"
      by (simp add: model_key_takeWhile [OF npr])
    moreover from mo have "mo_model e = Some (takeWhile (\<lambda>c. c \<noteq> CHR ''|'') (model r))"
      by (simp add: model_key_dropWhile [OF npr])
    ultimately show ?thesis using r by blast
  qed
  have card: "length (getTopModels (Some PInf) eng)
            = card ((\<lambda>r. (make' r, model r))
                      ` {r \<in> set ?rs. make' r \<noteq> [] \<and> model r \<noteq> []})"
    if np: "\<forall>r\<in>set ?rs. CHR ''|'' \<notin> set (make' r)"
  proof -
    from np have "\<forall>r\<in>{r \<in> set ?rs. make' r \<noteq> [] \<and> model r \<noteq> []}. CHR ''|'' \<notin> set (make' r)"
      by blast
    from card_keys_pairs [OF this] show ?thesis by (simp only: length_getTopModels_all)
  qed
  show ?thesis
  proof (intro conjI ballI impI)
    fix e assume "e \<in> set (getTopModels limit eng)"
    then show "\<exists>r\<in>set ?rs. make' r \<noteq> [] \<and> model r \<noteq> []
       \<and> mo_count e = length (filter (\<lambda>r'. make' r' \<noteq> [] \<and> model r' \<noteq> []
                                         \<and> model_key r' = model_key r) ?rs)
       \<and> mo_make e = Some (takeWhile (\<lambda>c. c \<noteq> CHR ''|'') (model_key r))
       \<and> mo_model e = Some (takeWhile (\<lambda>c. c \<noteq> CHR ''|'')
                              (tl (dropWhile (\<lambda>c. c \<noteq> CHR ''|'') (model_key r))))"
      by (rule gen)
  next
    fix e assume "\<forall>r\<in>set ?rs. CHR ''|'' \<notin> set (make' r)" "e \<in> set (getTopModels limit eng)"
    then show "\<exists>r\<in>set ?rs. make' r \<noteq> [] \<and> model r \<noteq> []
           \<and> mo_count e = length (filter (\<lambda>r'. make' r' = make' r \<and> model r' = model r) ?rs)
           \<and> mo_make e = Some (make' r)
           \<and> mo_model e = Some (takeWhile (\<lambda>c. c \<noteq> CHR ''|'') (model r))"
      by (rule exact)
  next
    assume "\<forall>r\<in>set ?rs. CHR ''|'' \<notin> set (make' r)"
    then show "length (getTopModels (Some PInf) eng)
            = card ((\<lambda>r. (make' r, model r))
                      ` {r \<in> set ?rs. make' r \<noteq> [] \<and> model r \<noteq> []})"
      by (rule card)
  next
    show "map (\<lambda>r. (make' r, model r)) (rawData ex_pipe_engine) = [(''A|B'', ''C''), (''A'', ''B|C'')]"
      by (rule ex_pipe_pairs)
  next
    show "map (\<lambda>e. (mo_make e, mo_model e, mo_count e)) (getTopModels None ex_pipe_engine)
       = [(Some ''A'', Some ''B'', 2)]"
      by (rule ex_pipe_top)
  qed
qed

theorem getTopModels_groups_by_key_witness:
  "list_all (\<lambda>r. CHR ''|'' \<notin> set (make' r)) (rawData ex_engine)
   \<and> map (\<lambda>e. (mo_make e, mo_model e, mo_count e)) (getTopModels None ex_engine)
       = [(Some ''TESLA'', Some ''MODEL 3'', 1), (Some ''TOYOTA'', Some ''PRIUS'', 1),
          (Some ''TESLA'', Some ''MODEL S'', 1)]
   \<and> list_all (\<lambda>e. \<exists>r\<in>set (rawData ex_engine).
           make' r \<noteq> [] \<and> model r \<noteq> []
           \<and> mo_count e = length (filter (\<lambda>r'. make' r' = make' r \<and> model r' = model r)
                                   (rawData ex_engine))
           \<and> mo_make e = Some (make' r)
           \<and> mo_model e = Some (takeWhile (\<lambda>c. c \<noteq> CHR ''|'') (model r)))
        (getTopModels None ex_engine)"
proof -
  have "\<forall>m\<in>set (map make' (rawData ex_engine)). CHR ''|'' \<notin> set m"
    by (simp only: ex_make_names) simp
  then have h: "\<forall>r\<in>set (rawData ex_engine). CHR ''|'' \<notin> set (make' r)"
    by simp
  note t = getTopModels_groups_by_key [of None ex_engine]
  from t h have "\<forall>e\<in>set (getTopModels None ex_engine). \<exists>r\<in>set (rawData ex_engine).
           make' r \<noteq> [] \<and> model r \<noteq> []
           \<and> mo_count e = length (filter (\<lambda>r'. make' r' = make' r \<and> model r' = model r)
                                   (rawData ex_engine))
           \<and> mo_make e = Some (make' r)
           \<and> mo_model e = Some (takeWhile (\<lambda>c. c \<noteq> CHR ''|'') (model r))"
    by (elim conjE impE) assumption+
  with h ex_top show ?thesis unfolding list_all_iff by (intro conjI)
qed

end
